theory Spec2Isabelle
  imports Main "HOL-Library.Char_ord" "HOL-Library.List_Lexorder"
begin

section \<open>Strings\<close>

text \<open>
  A Python \<open>str\<close> is a sequence of code points. It is modelled by \<open>string\<close>, each
  \<open>char\<close> standing for the code point of its number (\<open>ord\<close>), so the model covers the
  strings whose code points are below 256. \<open>len\<close> is \<open>length\<close>, a slice \<open>s[:n]\<close> is
  \<open>take n s\<close>, \<open>s[n:]\<close> is \<open>drop n s\<close>.
\<close>

definition ord :: "char \<Rightarrow> nat" where
  "ord c = of_char c"

text \<open>
  The whitespace of \<open>str.strip()\<close> and of \<open>\\s\<close> in a \<open>str\<close> pattern (the two agree:
  both are \<open>str.isspace\<close>). Below 256 these are TAB, LF, VT, FF, CR, the separators
  0x1C..0x1F, the space, NEL (0x85) and the no-break space (0xA0).
\<close>

definition is_space :: "char \<Rightarrow> bool" where
  "is_space c = ((9 \<le> ord c \<and> ord c \<le> 13) \<or> (28 \<le> ord c \<and> ord c \<le> 32) \<or> ord c = 133 \<or> ord c = 160)"

text \<open>\<open>\\d\<close>: the decimal digits; below 256 these are \<open>0\<close>..\<open>9\<close>.\<close>

definition is_digit :: "char \<Rightarrow> bool" where
  "is_digit c = (48 \<le> ord c \<and> ord c \<le> 57)"

text \<open>The character class \<open>[a-z]\<close>.\<close>

definition is_lower :: "char \<Rightarrow> bool" where
  "is_lower c = (97 \<le> ord c \<and> ord c \<le> 122)"

text \<open>
  Case folding for \<open>re.IGNORECASE\<close>: below 256 the only characters that match the
  letters of this program's patterns without being equal are the other case of the same
  ASCII letter.
\<close>

definition lower :: "char \<Rightarrow> char" where
  "lower c = (if 65 \<le> ord c \<and> ord c \<le> 90 then char_of (ord c + 32) else c)"

text \<open>\<open>s.strip()\<close>.\<close>

definition lstrip :: "string \<Rightarrow> string" where
  "lstrip s = dropWhile is_space s"

definition rstrip :: "string \<Rightarrow> string" where
  "rstrip s = rev (dropWhile is_space (rev s))"

definition strip :: "string \<Rightarrow> string" where
  "strip s = rstrip (lstrip s)"

text \<open>
  \<open>s.split(sep)\<close> for a separator of one character: every occurrence splits, empty
  pieces are kept, and the result is never empty.
\<close>

fun split_on :: "char \<Rightarrow> string \<Rightarrow> string list" where
  "split_on sep [] = [[]]"
| "split_on sep (c # cs) =
     (if c = sep then [] # split_on sep cs
      else (case split_on sep cs of p # ps \<Rightarrow> (c # p) # ps | [] \<Rightarrow> [[c]]))"

text \<open>\<open>s.replace(old, new)\<close> for \<open>old\<close> and \<open>new\<close> of one character each.\<close>

definition replace_char :: "char \<Rightarrow> char \<Rightarrow> string \<Rightarrow> string" where
  "replace_char old new s = map (\<lambda>c. if c = old then new else c) s"

text \<open>\<open>str(n)\<close> and \<open>f"{n}"\<close> for an \<open>int\<close>.\<close>

fun str_nat :: "nat \<Rightarrow> string" where
  "str_nat n = (if n < 10 then [char_of (48 + n)] else str_nat (n div 10) @ [char_of (48 + n mod 10)])"

definition str_int :: "int \<Rightarrow> string" where
  "str_int i = (if i < 0 then CHR ''-'' # str_nat (nat (- i)) else str_nat (nat i))"

section \<open>Regular expressions\<close>

text \<open>
  The \<open>re\<close> module is not part of the repository. Each pattern of the program is
  modelled by a matcher: applied to the text from some position on, it gives the length
  of the match that \<open>re\<close> finds starting at that position, or \<open>None\<close>. The functions
  below are \<open>re.search\<close>, \<open>re.sub\<close> and \<open>re.split\<close> over such a matcher.
\<close>

type_synonym matcher = "string \<Rightarrow> nat option"

text \<open>\<open>re.match(p, s)\<close> is the matcher at the start of \<open>s\<close>.\<close>

text \<open>
  \<open>re.search(p, s)\<close>: the match at the leftmost position that has one, as
  \<open>(start, length)\<close>.
\<close>

fun re_search :: "matcher \<Rightarrow> string \<Rightarrow> (nat \<times> nat) option" where
  "re_search m [] = (case m [] of Some n \<Rightarrow> Some (0, n) | None \<Rightarrow> None)"
| "re_search m (c # cs) =
     (case m (c # cs) of
        Some n \<Rightarrow> Some (0, n)
      | None \<Rightarrow> (case re_search m cs of Some (i, n) \<Rightarrow> Some (Suc i, n) | None \<Rightarrow> None))"

text \<open>
  \<open>re.sub(p, repl, s)\<close> for a pattern that matches no empty string (all patterns that
  are substituted here are such): the leftmost matches, none overlapping another, are
  replaced from left to right; the search goes on where the last match ended. The
  replacement is a function of the matched text (constant for a replacement string).
\<close>

function re_sub :: "matcher \<Rightarrow> (string \<Rightarrow> string) \<Rightarrow> string \<Rightarrow> string" where
  "re_sub m repl [] = []"
| "re_sub m repl (c # cs) =
     (case m (c # cs) of
        Some (Suc n) \<Rightarrow> repl (c # take n cs) @ re_sub m repl (drop n cs)
      | _ \<Rightarrow> c # re_sub m repl cs)"
  by pat_completeness auto
termination
  by (relation "measure (\<lambda>(m, repl, s). length s)") auto

text \<open>
  \<open>re.split(r"(?=p)", s)\<close>, the split at a lookahead. Every match is empty, so (from
  Python 3.7 on) the text is cut at every position where \<open>p\<close> matches ahead; a match
  at position 0 gives an empty first piece, and no match is at the end of the text. The
  lookahead is given as a test of the text from the position on.
\<close>

fun split_ahead :: "(string \<Rightarrow> bool) \<Rightarrow> string \<Rightarrow> string \<Rightarrow> string list" where
  "split_ahead ahead cur [] = [cur]"
| "split_ahead ahead cur (c # cs) =
     (if ahead (c # cs) then cur # split_ahead ahead [c] cs
      else split_ahead ahead (cur @ [c]) cs)"

definition re_split_ahead :: "(string \<Rightarrow> bool) \<Rightarrow> string \<Rightarrow> string list" where
  "re_split_ahead ahead s = split_ahead ahead [] s"

subsection \<open>Building blocks of the patterns\<close>

text \<open>
  The patterns of this program need no backtracking into a repetition, with one
  exception (\<open>m_blank_lines\<close> below): what follows a greedy repetition never starts
  with a character the repetition accepts, so giving back characters cannot turn a
  failure into a match. The sequence of two matchers is therefore the first followed
  by the second.
\<close>

definition m_seq :: "matcher \<Rightarrow> matcher \<Rightarrow> matcher" where
  "m_seq m1 m2 s =
     (case m1 s of
        None \<Rightarrow> None
      | Some n \<Rightarrow> (case m2 (drop n s) of None \<Rightarrow> None | Some k \<Rightarrow> Some (n + k)))"

text \<open>An alternative \<open>p|q\<close>: \<open>p\<close> is tried first.\<close>

definition m_alt :: "matcher \<Rightarrow> matcher \<Rightarrow> matcher" where
  "m_alt m1 m2 s = (case m1 s of Some n \<Rightarrow> Some n | None \<Rightarrow> m2 s)"

text \<open>An optional part \<open>p?\<close> (greedy).\<close>

definition m_opt :: "matcher \<Rightarrow> matcher" where
  "m_opt m s = (case m s of Some n \<Rightarrow> Some n | None \<Rightarrow> Some 0)"

text \<open>One character of a class.\<close>

definition m_one :: "(char \<Rightarrow> bool) \<Rightarrow> matcher" where
  "m_one P s = (case s of c # _ \<Rightarrow> if P c then Some 1 else None | [] \<Rightarrow> None)"

text \<open>A literal character.\<close>

definition m_chr :: "char \<Rightarrow> matcher" where
  "m_chr c = m_one (\<lambda>x. x = c)"

text \<open>\<open>c*\<close> and \<open>c+\<close> over a character class, greedy.\<close>

definition m_star :: "(char \<Rightarrow> bool) \<Rightarrow> matcher" where
  "m_star P s = Some (length (takeWhile P s))"

definition m_plus :: "(char \<Rightarrow> bool) \<Rightarrow> matcher" where
  "m_plus P s = (if takeWhile P s = [] then None else Some (length (takeWhile P s)))"

text \<open>A literal under \<open>re.IGNORECASE\<close>; the literal is given in lower case.\<close>

definition m_lit_ci :: "string \<Rightarrow> matcher" where
  "m_lit_ci lit s =
     (if length lit \<le> length s \<and> map lower (take (length lit) s) = lit
      then Some (length lit) else None)"

text \<open>\<open>c{1,n}\<close> over a character class, greedy.\<close>

definition m_upto :: "nat \<Rightarrow> (char \<Rightarrow> bool) \<Rightarrow> matcher" where
  "m_upto n P s = (if takeWhile P (take n s) = [] then None else Some (length (takeWhile P (take n s))))"

subsection \<open>The patterns of the program\<close>

text \<open>\<open>\\([a-z]\\)\<close>, the lettered marker.\<close>

definition m_letter :: matcher where
  "m_letter = m_seq (m_chr CHR ''('') (m_seq (m_one is_lower) (m_chr CHR '')''))"

text \<open>\<open>\\(\\d+\\)\<close>, the numbered marker.\<close>

definition m_number :: matcher where
  "m_number = m_seq (m_chr CHR ''('') (m_seq (m_plus is_digit) (m_chr CHR '')''))"

text \<open>\<open>\\([a-z]\\)\\s\<close> and \<open>\\(\\d+\\)\\s\<close>, the lookaheads of the two splits.\<close>

definition ahead_letter :: "string \<Rightarrow> bool" where
  "ahead_letter s = (m_seq m_letter (m_one is_space) s \<noteq> None)"

definition ahead_number :: "string \<Rightarrow> bool" where
  "ahead_number s = (m_seq m_number (m_one is_space) s \<noteq> None)"

text \<open>\<open>\\(([a-z])\\)\\s*\<close> and \<open>\\((\\d+)\\)\\s*\<close>, matched at the start of a piece.\<close>

definition m_letter_ws :: matcher where
  "m_letter_ws = m_seq m_letter (m_star is_space)"

definition m_number_ws :: matcher where
  "m_number_ws = m_seq m_number (m_star is_space)"

text \<open>\<open>\\([a-z]\\)|\\(\\d+\\)\<close>, a marker of either kind.\<close>

definition m_marker :: matcher where
  "m_marker = m_alt m_letter m_number"

text \<open>\<open>\\d+-\\d+-\\d+\<close> and \<open>(\\d+-\\d+-\\d+(?:\\.\\d+)?)\<close>.\<close>

definition m_three_part :: matcher where
  "m_three_part =
     m_seq (m_plus is_digit) (m_seq (m_chr CHR ''-'')
       (m_seq (m_plus is_digit) (m_seq (m_chr CHR ''-'') (m_plus is_digit))))"

definition m_section_number :: matcher where
  "m_section_number = m_seq m_three_part (m_opt (m_seq (m_chr CHR ''.'') (m_plus is_digit)))"

section \<open>Section numbers and identifiers\<close>

text \<open>\<open>extract_section_number\<close>.\<close>

definition extract_section_number :: "string \<Rightarrow> string" where
  "extract_section_number caption =
     (case re_search m_section_number caption of
        Some (i, n) \<Rightarrow> take n (drop i caption)
      | None \<Rightarrow> replace_char CHR ''.'' CHR ''-'' (replace_char CHR '' '' CHR ''-'' caption))"

text \<open>\<open>create_eid\<close>.\<close>

definition create_eid :: "string \<Rightarrow> string" where
  "create_eid section_num = ''sec_'' @ section_num"

section \<open>The hierarchy parser\<close>

text \<open>
  A node of the parser's result: the dictionary with the keys \<open>identifier\<close>, \<open>text\<close>
  and \<open>children\<close>, in this order.
\<close>

datatype node = Subsection (sub_identifier: string) (sub_text: string) (sub_children: "node list")

text \<open>
  The body of the inner loop of \<open>parse_subsections\<close>: one piece of the split at the
  numbered markers. The group of the match is the run of digits after the bracket.
\<close>

definition parse_child :: "string \<Rightarrow> node list" where
  "parse_child num_part =
     (case m_number_ws num_part of
        None \<Rightarrow> []
      | Some e \<Rightarrow>
          (let num_id = takeWhile is_digit (drop 1 num_part);
               num_text = strip (drop e num_part);
               num_text' = (case re_search m_marker num_text of
                              Some (i, n) \<Rightarrow> strip (take i num_text)
                            | None \<Rightarrow> num_text)
           in [Subsection num_id (take 2000 num_text') []]))"

text \<open>The body of the outer loop: one piece of the split at the lettered markers.\<close>

definition parse_part :: "string \<Rightarrow> node list" where
  "parse_part part =
     (case m_letter_ws part of
        None \<Rightarrow> []
      | Some e \<Rightarrow>
          (let ident = take 1 (drop 1 part);
               content = drop e part;
               (direct_text, remaining) =
                 (case re_search m_number content of
                    Some (i, n) \<Rightarrow> (strip (take i content), drop i content)
                  | None \<Rightarrow> (strip content, []));
               kids = (if remaining \<noteq> []
                       then concat (map parse_child (tl (re_split_ahead ahead_number remaining)))
                       else []);
               direct_text' = (case re_search m_letter direct_text of
                                 Some (i, n) \<Rightarrow> strip (take i direct_text)
                               | None \<Rightarrow> direct_text)
           in [Subsection ident (take 2000 direct_text') kids]))"

text \<open>\<open>parse_subsections\<close>.\<close>

definition parse_subsections :: "string \<Rightarrow> node list" where
  "parse_subsections txt = concat (map parse_part (tl (re_split_ahead ahead_letter txt)))"

section \<open>The text normalizer\<close>

text \<open>The newline character.\<close>

definition LF :: char where
  "LF = CHR 0x0A"

text \<open>\<open><BR\\s*/?>\<close>, \<open><P>\<close>, \<open></P>\<close>, \<open><STRONG>|</STRONG>\<close>, \<open><B>|</B>\<close> and
  \<open><FONT[^>]*>|</FONT>\<close>, all under \<open>re.IGNORECASE\<close>, and \<open><[^>]+>\<close>.\<close>

definition m_br :: matcher where
  "m_br = m_seq (m_lit_ci ''<br'') (m_seq (m_star is_space) (m_seq (m_opt (m_chr CHR ''/'')) (m_chr CHR ''>'')))"

definition m_p_open :: matcher where
  "m_p_open = m_lit_ci ''<p>''"

definition m_p_close :: matcher where
  "m_p_close = m_lit_ci ''</p>''"

definition m_strong :: matcher where
  "m_strong = m_alt (m_lit_ci ''<strong>'') (m_lit_ci ''</strong>'')"

definition m_b :: matcher where
  "m_b = m_alt (m_lit_ci ''<b>'') (m_lit_ci ''</b>'')"

definition m_font :: matcher where
  "m_font = m_alt (m_seq (m_lit_ci ''<font'') (m_seq (m_star (\<lambda>c. c \<noteq> CHR ''>'')) (m_chr CHR ''>'')))
                  (m_lit_ci ''</font>'')"

definition m_tag :: matcher where
  "m_tag = m_seq (m_chr CHR ''<'') (m_seq (m_plus (\<lambda>c. c \<noteq> CHR ''>'')) (m_chr CHR ''>''))"

text \<open>
  \<open>\\n\\s*\\n+\<close>. This pattern backtracks: \<open>\\s*\<close> first takes the whole run of
  whitespace after the first newline and gives characters back until a newline
  follows, which is the last newline of the run; \<open>\\n+\<close> then takes that newline alone
  (what follows it in the run is no newline). So the match ends after the last newline
  of the run, and there is none when the run has no newline.
\<close>

definition m_blank_lines :: matcher where
  "m_blank_lines s =
     (case s of
        [] \<Rightarrow> None
      | c # cs \<Rightarrow>
          (if c = LF
           then (let k = length (dropWhile (\<lambda>x. x \<noteq> LF) (rev (takeWhile is_space cs)))
                 in if k = 0 then None else Some (1 + k))
           else None))"

text \<open>
  \<open>clean_html_content\<close>. \<open>html.unescape\<close> belongs to the standard library and decodes by
  a table of 2231 names; it is a parameter of the model (\<open>unescape\<close>), so what is proved
  of \<open>clean_html_content\<close> for every \<open>unescape\<close> holds for the library's function.
\<close>

definition clean_html_content :: "(string \<Rightarrow> string) \<Rightarrow> string \<Rightarrow> string" where
  "clean_html_content unescape html_content =
     (let t0 = unescape html_content;
          t1 = re_sub m_br (\<lambda>_. [LF]) t0;
          t2 = re_sub m_p_open (\<lambda>_. [LF]) t1;
          t3 = re_sub m_p_close (\<lambda>_. []) t2;
          t4 = re_sub m_strong (\<lambda>_. []) t3;
          t5 = re_sub m_b (\<lambda>_. []) t4;
          t6 = re_sub m_font (\<lambda>_. []) t5;
          t7 = re_sub m_tag (\<lambda>_. []) t6;
          t8 = re_sub m_blank_lines (\<lambda>_. [LF, LF]) t7
      in strip t8)"

subsection \<open>The entity decoder at concrete inputs\<close>

text \<open>
  For evaluation at concrete inputs, \<open>html.unescape\<close> as the library defines it:
  the pattern \<open>&(#[0-9]+;?|#[xX][0-9a-fA-F]+;?|[^\\t\\n\\f <&#;]{1,32};?)\<close>, the numeric
  references, and the named references with the rule of the longest known prefix. Two
  things are cut to the model's alphabet: \<open>html5\<close> lists only the names below, and a
  numeric reference that the library decodes to a code point above 255 is left as it is
  written. No theorem evaluates \<open>html_unescape\<close> on a reference of either kind.
\<close>

definition html5 :: "(string \<times> string) list" where
  "html5 =
     [(''amp;'', ''&''), (''amp'', ''&''), (''lt;'', ''<''), (''lt'', ''<''),
      (''gt;'', ''>''), (''gt'', ''>''), (''quot;'', [CHR 0x22]), (''quot'', [CHR 0x22]),
      (''apos;'', [CHR 0x27]), (''nbsp;'', [CHR 0xA0]), (''nbsp'', [CHR 0xA0])]"

definition is_hex :: "char \<Rightarrow> bool" where
  "is_hex c = ((48 \<le> ord c \<and> ord c \<le> 57) \<or> (97 \<le> ord c \<and> ord c \<le> 102) \<or> (65 \<le> ord c \<and> ord c \<le> 70))"

definition is_name_char :: "char \<Rightarrow> bool" where
  "is_name_char c = (c \<notin> {CHR 0x09, CHR 0x0A, CHR 0x0C, CHR '' '', CHR ''<'', CHR ''&'', CHR ''#'', CHR '';''})"

definition m_charref :: matcher where
  "m_charref =
     m_seq (m_chr CHR ''&'')
       (m_alt (m_seq (m_chr CHR ''#'') (m_seq (m_plus is_digit) (m_opt (m_chr CHR '';''))))
       (m_alt (m_seq (m_chr CHR ''#'') (m_seq (m_one (\<lambda>c. c = CHR ''x'' \<or> c = CHR ''X''))
                 (m_seq (m_plus is_hex) (m_opt (m_chr CHR '';'')))))
              (m_seq (m_upto 32 is_name_char) (m_opt (m_chr CHR '';'')))))"

text \<open>\<open>int(s, base)\<close> on a string of digits of the base.\<close>

definition digit_value :: "char \<Rightarrow> nat" where
  "digit_value c = (if ord c \<le> 57 then ord c - 48 else if ord c \<le> 70 then ord c - 55 else ord c - 87)"

definition int_of_digits :: "nat \<Rightarrow> string \<Rightarrow> nat" where
  "int_of_digits base ds = foldl (\<lambda>a d. a * base + digit_value d) 0 ds"

text \<open>
  The numeric references: \<open>_invalid_charrefs\<close> first (of its 34 entries, those whose
  value is below 256), then the surrogates and the numbers beyond Unicode, then
  \<open>_invalid_codepoints\<close> (1..8, 11, 14..31, 127..159, 0xFDD0..0xFDEF and the last
  two code points of each of the 17 planes), then \<open>chr(num)\<close>.
  \<open>None\<close>: the library's result is not in the model's alphabet.
\<close>

definition numeric_charref :: "nat \<Rightarrow> string option" where
  "numeric_charref num =
     (if num = 13 then Some [CHR 0x0D]
      else if num \<in> {129, 141, 143, 144, 157} then Some [char_of num]
      else if num = 0 \<or> (128 \<le> num \<and> num \<le> 159) then None
      else if 256 \<le> num
           then (if (64976 \<le> num \<and> num \<le> 65007) \<or> (num \<le> 1114111 \<and> 65534 \<le> num mod 65536)
                 then Some [] else None)
      else if (1 \<le> num \<and> num \<le> 8) \<or> num = 11 \<or> (14 \<le> num \<and> num \<le> 31) \<or> num = 127 then Some []
      else Some [char_of num])"

text \<open>The loop \<open>for x in range(len(s)-1, 1, -1)\<close> of \<open>_replace_charref\<close>.\<close>

fun longest_prefix :: "string \<Rightarrow> nat \<Rightarrow> string" where
  "longest_prefix s x =
     (if x \<le> 1 then CHR ''&'' # s
      else (case map_of html5 (take x s) of
              Some v \<Rightarrow> v @ drop x s
            | None \<Rightarrow> longest_prefix s (x - 1)))"

text \<open>\<open>_replace_charref\<close>, applied to the whole match (the group is the match without
  its \<open>&\<close>).\<close>

definition replace_charref :: "string \<Rightarrow> string" where
  "replace_charref whole =
     (let s = drop 1 whole in
      if take 1 s = ''#''
      then (let ds = rev (dropWhile (\<lambda>c. c = CHR '';'') (rev (drop 1 s)));
                num = (if take 1 ds = ''x'' \<or> take 1 ds = ''X''
                       then int_of_digits 16 (drop 1 ds) else int_of_digits 10 ds)
            in case numeric_charref num of Some v \<Rightarrow> v | None \<Rightarrow> whole)
      else (case map_of html5 s of
              Some v \<Rightarrow> v
            | None \<Rightarrow> longest_prefix s (length s - 1)))"

definition html_unescape :: "string \<Rightarrow> string" where
  "html_unescape s = (if CHR ''&'' \<notin> set s then s else re_sub m_charref replace_charref s)"

section \<open>The document tree builder\<close>

text \<open>
  An \<open>xml.etree.ElementTree.Element\<close>: its tag, its attributes in the order they were
  set (no attribute is set twice), its text (\<open>None\<close> until assigned) and its children.
  \<open>ET.SubElement(parent, tag)\<close> appends a new child to \<open>parent\<close>, which the program
  then fills; the model builds each child complete and lists the children in the order
  of the \<open>SubElement\<close> calls.
\<close>

datatype element =
  Element (tag: string) (attrib: "(string \<times> string) list") (elem_text: "string option")
    (subelements: "element list")

definition AKN_NS :: string where
  "AKN_NS = ''http://docs.oasis-open.org/legaldocml/ns/akn/3.0''"

text \<open>The tag \<open>f"{{{AKN_NS}}}name"\<close>.\<close>

definition akn :: "string \<Rightarrow> string" where
  "akn name = ''{'' @ AKN_NS @ ''}'' @ name"

text \<open>
  A section dictionary, as the builder reads it. \<open>sec_number\<close> is the key
  \<open>section_number\<close>, \<open>sec_text\<close> is \<open>text\<close>, and so on. A key that the builder reads
  with \<open>get\<close> and only tests for truth (\<open>title\<close>, \<open>history\<close>, \<open>chapter_title\<close>) or reads
  with a default that is the empty value (\<open>text\<close>, \<open>subsections\<close>) holds the empty value
  when it is absent. An absent \<open>chapter\<close> is \<open>None\<close>: the builder reads it with the
  default \<open>"0"\<close>.
\<close>

record section_record =
  sec_number :: string
  sec_title :: string
  sec_text :: string
  sec_history :: string
  sec_chapter :: "string option"
  sec_chapter_title :: string
  sec_subsections :: "node list"

text \<open>
  \<open>add_subsection_element\<close>: the subsection element that it appends to its parent.
\<close>

definition add_subsection_element :: "node \<Rightarrow> string \<Rightarrow> element" where
  "add_subsection_element sub section_num =
     (let ident = sub_identifier sub;
          eid = ''sec_'' @ section_num @ ''__subsec_'' @ ident
      in Element (akn ''subsection'') [(''eId'', eid)] None
           ([Element (akn ''num'') [] (Some (''('' @ ident @ '')'')) [],
             Element (akn ''content'') [] None [Element (akn ''p'') [] (Some (sub_text sub)) []]]
            @ map (\<lambda>child.
                     (let child_id = sub_identifier child;
                          child_eid = eid @ ''__para_'' @ child_id
                      in Element (akn ''paragraph'') [(''eId'', child_eid)] None
                           [Element (akn ''num'') [] (Some (''('' @ child_id @ '')'')) [],
                            Element (akn ''content'') [] None
                              [Element (akn ''p'') [] (Some (sub_text child)) []]]))
                (sub_children sub)))"

text \<open>
  \<open>re.match(r"^(.+?)(?=\\([a-z]\\))", text, re.DOTALL)\<close>, its group 1: the lazy \<open>.+?\<close>
  takes one character (any character, under \<open>DOTALL\<close>) and then as few more as lead to
  a lettered marker.
\<close>

definition intro_match :: "string \<Rightarrow> string option" where
  "intro_match txt =
     (case txt of
        [] \<Rightarrow> None
      | c # cs \<Rightarrow> (case re_search m_letter cs of
                    Some (i, n) \<Rightarrow> Some (take (Suc i) txt)
                  | None \<Rightarrow> None))"

text \<open>\<open>add_section_element\<close>: the section element that it appends to its parent.\<close>

definition add_section_element :: "section_record \<Rightarrow> element" where
  "add_section_element sec =
     (let section_num = sec_number sec;
          eid = create_eid section_num;
          heading = (if sec_title sec \<noteq> []
                     then [Element (akn ''heading'') [] (Some (sec_title sec)) []] else []);
          txt = sec_text sec;
          subs = sec_subsections sec;
          content =
            (if subs \<noteq> []
             then (case intro_match txt of
                     Some g \<Rightarrow> [Element (akn ''intro'') [] None
                                 [Element (akn ''p'') [] (Some (take 500 (strip g))) []]]
                   | None \<Rightarrow> [])
                  @ map (\<lambda>sub. add_subsection_element sub section_num) subs
             else [Element (akn ''content'') [] None
                     [Element (akn ''p'') [] (Some (take 5000 txt)) []]]);
          notes = (if sec_history sec \<noteq> []
                   then [Element (akn ''notes'') [] None
                           [Element (akn ''note'') [(''type'', ''history'')] None
                              [Element (akn ''p'') [] (Some (take 1000 (sec_history sec))) []]]]
                   else [])
      in Element (akn ''section'') [(''eId'', eid)] None
           ([Element (akn ''num'') [] (Some section_num) []] @ heading @ content @ notes))"

text \<open>
  The grouping loop of \<open>create_akn_document\<close>. The dictionary \<open>chapters\<close> is the list
  of its items in the order of insertion.
\<close>

definition chapter_key :: "section_record \<Rightarrow> string" where
  "chapter_key sec = (case sec_chapter sec of None \<Rightarrow> ''0'' | Some c \<Rightarrow> c)"

definition add_to_chapters ::
  "(string \<times> section_record list) list \<Rightarrow> section_record \<Rightarrow> (string \<times> section_record list) list" where
  "add_to_chapters chapters sec =
     (let chapter = chapter_key sec;
          chapters' = (if chapter \<notin> fst ` set chapters then chapters @ [(chapter, [])] else chapters)
      in map (\<lambda>(k, v). if k = chapter then (k, v @ [sec]) else (k, v)) chapters')"

definition group_by_chapter :: "section_record list \<Rightarrow> (string \<times> section_record list) list" where
  "group_by_chapter secs = foldl add_to_chapters [] secs"

text \<open>
  The body of the loop over \<open>sorted(chapters.items())\<close>: nothing for the empty key,
  else the chapter element. \<open>chapter_sections[0]\<close> exists: a group is created for its
  first section.
\<close>

definition chapter_element :: "int \<Rightarrow> string \<times> section_record list \<Rightarrow> element list" where
  "chapter_element title_num item =
     (let chapter_num = fst item; chapter_sections = snd item in
      if chapter_num = [] then []
      else [Element (akn ''chapter'') [(''eId'', ''chp_'' @ str_int title_num @ ''-'' @ chapter_num)] None
              ([Element (akn ''num'') [] (Some (''Chapter '' @ chapter_num)) []]
               @ (case chapter_sections of
                    [] \<Rightarrow> []
                  | first # _ \<Rightarrow>
                      (if sec_chapter_title first \<noteq> []
                       then [Element (akn ''heading'') [] (Some (sec_chapter_title first)) []]
                       else []))
               @ map add_section_element chapter_sections)])"

text \<open>
  The items are sorted as Python sorts tuples; the keys of a dictionary differ from each
  other, so the order of the keys (strings, by code points) decides.
\<close>

definition body_element :: "int \<Rightarrow> section_record list \<Rightarrow> element" where
  "body_element title_num secs =
     Element (akn ''body'') [] None
       (concat (map (chapter_element title_num) (sort_key fst (group_by_chapter secs))))"

text \<open>
  The metadata block. \<open>today\<close> is \<open>date.today().isoformat()\<close>, the date of the run: the
  program reads it from the clock, the model takes it as an argument.
\<close>

definition frbr_work :: "int \<Rightarrow> element" where
  "frbr_work title_num =
     Element (akn ''FRBRWork'') [] None
       [Element (akn ''FRBRthis'') [(''value'', ''/akn/us-ga/act/ocga/title-'' @ str_int title_num)] None [],
        Element (akn ''FRBRuri'') [(''value'', ''/akn/us-ga/act/ocga/title-'' @ str_int title_num)] None [],
        Element (akn ''FRBRdate'') [(''date'', ''2018-12-01''), (''name'', ''publication'')] None [],
        Element (akn ''FRBRauthor'') [(''href'', ''#ga-legislature'')] None [],
        Element (akn ''FRBRcountry'') [(''value'', ''us-ga'')] None [],
        Element (akn ''FRBRnumber'') [(''value'', str_int title_num)] None []]"

definition frbr_expression :: "int \<Rightarrow> element" where
  "frbr_expression title_num =
     Element (akn ''FRBRExpression'') [] None
       [Element (akn ''FRBRthis'')
          [(''value'', ''/akn/us-ga/act/ocga/title-'' @ str_int title_num @ ''/eng@2018-12-01'')] None [],
        Element (akn ''FRBRuri'')
          [(''value'', ''/akn/us-ga/act/ocga/title-'' @ str_int title_num @ ''/eng@2018-12-01'')] None [],
        Element (akn ''FRBRdate'') [(''date'', ''2018-12-01''), (''name'', ''publication'')] None [],
        Element (akn ''FRBRauthor'') [(''href'', ''#cosilico'')] None [],
        Element (akn ''FRBRlanguage'') [(''language'', ''eng'')] None []]"

definition frbr_manifestation :: "string \<Rightarrow> int \<Rightarrow> element" where
  "frbr_manifestation today title_num =
     Element (akn ''FRBRManifestation'') [] None
       [Element (akn ''FRBRthis'')
          [(''value'', ''/akn/us-ga/act/ocga/title-'' @ str_int title_num @ ''/eng@2018-12-01/main.xml'')] None [],
        Element (akn ''FRBRuri'')
          [(''value'', ''/akn/us-ga/act/ocga/title-'' @ str_int title_num @ ''/eng@2018-12-01/main.xml'')] None [],
        Element (akn ''FRBRdate'') [(''date'', today), (''name'', ''generation'')] None [],
        Element (akn ''FRBRauthor'') [(''href'', ''#cosilico'')] None []]"

definition meta_element :: "string \<Rightarrow> int \<Rightarrow> element" where
  "meta_element today title_num =
     Element (akn ''meta'') [] None
       [Element (akn ''identification'') [(''source'', ''#cosilico'')] None
          [frbr_work title_num, frbr_expression title_num, frbr_manifestation today title_num],
        Element (akn ''publication'')
          [(''date'', ''2018-12-01''), (''name'', ''Official Code of Georgia Annotated''),
           (''showAs'', ''OCGA'')] None [],
        Element (akn ''references'') [] None
          [Element (akn ''TLCOrganization'')
             [(''eId'', ''ga-legislature''), (''href'', ''/ontology/organization/us-ga/legislature''),
              (''showAs'', ''Georgia General Assembly'')] None [],
           Element (akn ''TLCOrganization'')
             [(''eId'', ''cosilico''), (''href'', ''https://cosilico.ai''), (''showAs'', ''Cosilico'')]
             None []]]"

text \<open>\<open>create_akn_document\<close>.\<close>

definition create_akn_document :: "string \<Rightarrow> int \<Rightarrow> section_record list \<Rightarrow> element" where
  "create_akn_document today title_num secs =
     Element (akn ''akomaNtoso'') [] None
       [Element (akn ''act'') [] None [meta_element today title_num, body_element title_num secs]]"

section \<open>The source record extractor\<close>

text \<open>
  \<open>ET.parse\<close> and \<open>root.iter("Index")\<close> belong to the standard library: the input of the
  model is what the loop of \<open>parse_source_xml\<close> ranges over, the \<open>Index\<close> elements of
  the document in document order. Of each the loop reads the attribute \<open>Level\<close> and the
  text of the first child of each of four tags; \<open>None\<close> is a missing attribute, and a
  missing child or a child with no text (the program does not tell these two apart).
\<close>

record index_entry =
  Level :: "string option"
  Caption :: "string option"
  Description :: "string option"
  Content :: "string option"
  RevisionHistory :: "string option"

text \<open>The body of the loop of \<open>parse_source_xml\<close>: the records it appends (one or
  none).\<close>

definition parse_index :: "(string \<Rightarrow> string) \<Rightarrow> index_entry \<Rightarrow> section_record list" where
  "parse_index unescape index =
     (let level = (case Level index of None \<Rightarrow> [] | Some l \<Rightarrow> l) in
      if level \<noteq> ''3'' \<and> level \<noteq> ''4'' then []
      else (case Caption index of
              None \<Rightarrow> []
            | Some caption \<Rightarrow>
                if caption = [] then []
                else (let caption_text = strip caption in
                      if re_search m_three_part caption_text = None then []
                      else (let section_number = extract_section_number caption_text;
                                title = (case Description index of
                                           None \<Rightarrow> []
                                         | Some d \<Rightarrow> if d \<noteq> [] then strip d else []);
                                content = (case Content index of
                                             None \<Rightarrow> []
                                           | Some c \<Rightarrow> if c \<noteq> [] then clean_html_content unescape c else []);
                                history = (case RevisionHistory index of
                                             None \<Rightarrow> []
                                           | Some h \<Rightarrow> if h \<noteq> [] then strip h else []);
                                parts = split_on CHR ''-'' section_number;
                                chapter = (if length parts > 1 then parts ! 1 else []);
                                subsections = parse_subsections content
                            in [\<lparr>sec_number = section_number, sec_title = title, sec_text = content,
                                 sec_history = history, sec_chapter = Some chapter,
                                 sec_chapter_title = [], sec_subsections = subsections\<rparr>]))))"

text \<open>\<open>parse_source_xml\<close>.\<close>

definition parse_source_xml :: "(string \<Rightarrow> string) \<Rightarrow> index_entry list \<Rightarrow> section_record list" where
  "parse_source_xml unescape indexes = concat (map (parse_index unescape) indexes)"

section \<open>Reading the output tree\<close>

text \<open>The \<open>eId\<close> attribute of an element, and its children of a given tag.\<close>

definition eId :: "element \<Rightarrow> string option" where
  "eId e = map_of (attrib e) ''eId''"

definition child_elems :: "string \<Rightarrow> element \<Rightarrow> element list" where
  "child_elems name e = filter (\<lambda>k. tag k = akn name) (subelements e)"

text \<open>All \<open>eId\<close> values of a tree, in document order.\<close>

fun all_eIds :: "element \<Rightarrow> string list" where
  "all_eIds (Element t a x kids) =
     (case map_of a ''eId'' of Some v \<Rightarrow> [v] | None \<Rightarrow> []) @ concat (map all_eIds kids)"

text \<open>
  Assigning an attribute that an element has, and changing the element at a path (the
  indexes of the children to descend into); a path that leaves the tree changes nothing.
\<close>

definition set_attr :: "string \<Rightarrow> string \<Rightarrow> element \<Rightarrow> element" where
  "set_attr k v e =
     Element (tag e) (map (\<lambda>(k', v'). if k' = k then (k', v) else (k', v')) (attrib e))
       (elem_text e) (subelements e)"

fun update_at :: "nat list \<Rightarrow> (element \<Rightarrow> element) \<Rightarrow> element \<Rightarrow> element" where
  "update_at [] f e = f e"
| "update_at (i # path) f (Element t a x kids) =
     Element t a x (if i < length kids then kids[i := update_at path f (kids ! i)] else kids)"

text \<open>
  The text fields of a tree: for every \<open>p\<close> element, the tag of its grandparent, the tag
  of its parent and its text, in document order. \<open>gp\<close> and \<open>par\<close> are the tags above the
  element the function is applied to.
\<close>

fun p_texts :: "string \<Rightarrow> string \<Rightarrow> element \<Rightarrow> (string \<times> string \<times> string) list" where
  "p_texts gp par (Element t a x kids) =
     (if t = akn ''p'' then [(gp, par, case x of None \<Rightarrow> [] | Some v \<Rightarrow> v)] else [])
     @ concat (map (p_texts par t) kids)"

text \<open>
  The documented maximum of a text field, by where its \<open>p\<close> stands: 500 in an intro
  block, 1000 in a history note, 5000 in the content block of a section, 2000 in the
  content block of a subsection or of a paragraph. No other place has a maximum.
\<close>

definition text_limit :: "string \<Rightarrow> string \<Rightarrow> nat option" where
  "text_limit gp par =
     (if par = akn ''intro'' then Some 500
      else if par = akn ''note'' then Some 1000
      else if par = akn ''content'' \<and> gp = akn ''section'' then Some 5000
      else if par = akn ''content'' \<and> (gp = akn ''subsection'' \<or> gp = akn ''paragraph'') then Some 2000
      else None)"

definition within_limit :: "string \<times> string \<times> string \<Rightarrow> bool" where
  "within_limit x =
     (case x of (gp, par, t) \<Rightarrow>
        (case text_limit gp par of None \<Rightarrow> False | Some lim \<Rightarrow> length t \<le> lim))"

text \<open>A parser node whose text, and whose children's texts, have at most 2000 characters.\<close>

definition node_bounded :: "node \<Rightarrow> bool" where
  "node_bounded n =
     (length (sub_text n) \<le> 2000 \<and> list_all (\<lambda>c. length (sub_text c) \<le> 2000) (sub_children n))"

section \<open>Section numbers, as the specification words them\<close>

text \<open>
  A string matches \<open>\\d+-\\d+-\\d+(\\.\\d+)?\<close> as a whole when it is one or more digits, a
  hyphen, one or more digits, a hyphen, one or more digits and then either nothing or a
  period and one or more digits. The definition tries every way to cut the string:
  \<open>digits1 k s\<close> holds when \<open>s\<close> is one or more digits followed by a rest that \<open>k\<close>
  accepts, \<open>lit c k s\<close> when \<open>s\<close> is the character \<open>c\<close> followed by such a rest.
\<close>

definition digits1 :: "(string \<Rightarrow> bool) \<Rightarrow> string \<Rightarrow> bool" where
  "digits1 k s = (\<exists>n \<in> {1..length s}. list_all is_digit (take n s) \<and> k (drop n s))"

definition lit :: "char \<Rightarrow> (string \<Rightarrow> bool) \<Rightarrow> string \<Rightarrow> bool" where
  "lit c k s = (case s of [] \<Rightarrow> False | x # r \<Rightarrow> x = c \<and> k r)"

definition is_section_number :: "string \<Rightarrow> bool" where
  "is_section_number =
     digits1 (lit CHR ''-'' (digits1 (lit CHR ''-''
       (digits1 (\<lambda>r. r = [] \<or> lit CHR ''.'' (digits1 (\<lambda>r. r = [])) r)))))"

text \<open>A non-empty string of digits.\<close>

abbreviation (input) D :: "string \<Rightarrow> bool" where
  "D x \<equiv> x \<noteq> [] \<and> list_all is_digit x"

text \<open>
  The chapter a record is filed under, read from the record: the value of its
  \<open>chapter\<close> field (a dictionary that has no such field is filed under \<open>0\<close>).
  \<open>emitted_keys\<close>: the non-empty chapters of a sequence of records, in increasing order.
\<close>

definition chapter_field :: "section_record \<Rightarrow> string" where
  "chapter_field sec = (case sec_chapter sec of Some c \<Rightarrow> c | None \<Rightarrow> ''0'')"

definition emitted_keys :: "section_record list \<Rightarrow> string list" where
  "emitted_keys secs = sorted_list_of_set (chapter_field ` set secs - {[]})"

section \<open>Lettered markers, as the specification words them\<close>

text \<open>
  A lettered marker is \<open>(x)\<close> with \<open>x\<close> one lower-case letter. \<open>before_first_marker\<close> is
  the text before the first lettered marker, \<open>None\<close> when the text has none.
  \<open>has_spaced_marker\<close>: somewhere in the text stands a lettered marker followed by a
  whitespace character (the marker at which the parser splits).
\<close>

definition starts_with_marker :: "string \<Rightarrow> bool" where
  "starts_with_marker s =
     (case s of a # x # b # _ \<Rightarrow> a = CHR ''('' \<and> is_lower x \<and> b = CHR '')'' | _ \<Rightarrow> False)"

fun before_first_marker :: "string \<Rightarrow> string option" where
  "before_first_marker [] = None"
| "before_first_marker (c # cs) =
     (if starts_with_marker (c # cs) then Some []
      else (case before_first_marker cs of None \<Rightarrow> None | Some pre \<Rightarrow> Some (c # pre)))"

definition starts_with_spaced_marker :: "string \<Rightarrow> bool" where
  "starts_with_spaced_marker s =
     (case s of a # x # b # w # _ \<Rightarrow> a = CHR ''('' \<and> is_lower x \<and> b = CHR '')'' \<and> is_space w | _ \<Rightarrow> False)"

fun has_spaced_marker :: "string \<Rightarrow> bool" where
  "has_spaced_marker [] = False"
| "has_spaced_marker (c # cs) = (starts_with_spaced_marker (c # cs) \<or> has_spaced_marker cs)"

text \<open>A lettered marker begins somewhere after the first character of the text.\<close>

definition marker_after_start :: "string \<Rightarrow> bool" where
  "marker_after_start s = (case s of [] \<Rightarrow> False | c # cs \<Rightarrow> before_first_marker cs \<noteq> None)"

section \<open>Tag-shaped substrings, as the specification words them\<close>

text \<open>
  A tag-shaped substring is an opening angle bracket, one or more characters other than
  \<open>>\<close>, then a closing angle bracket. \<open>has_tag s\<close>: one begins somewhere in \<open>s\<close>, that
  is, at some position stands \<open><\<close>, the next character is not \<open>>\<close>, and a \<open>>\<close> follows
  later.
\<close>

fun has_tag :: "string \<Rightarrow> bool" where
  "has_tag [] = False"
| "has_tag (c # cs) =
     ((c = CHR ''<'' \<and> cs \<noteq> [] \<and> hd cs \<noteq> CHR ''>'' \<and> CHR ''>'' \<in> set cs) \<or> has_tag cs)"

section \<open>Blank lines in normal form\<close>

text \<open>
  Every match of the pattern \<open>\\n\\s*\\n+\<close> in the text is two characters long (it is
  then two newlines, and replacing it by two newlines changes nothing).
\<close>

fun blank_ok :: "string \<Rightarrow> bool" where
  "blank_ok [] = True"
| "blank_ok (c # cs) =
     ((case m_blank_lines (c # cs) of None \<Rightarrow> True | Some n \<Rightarrow> n = 2) \<and> blank_ok cs)"

section \<open>Claims\<close>

text \<open>
  C1. For the text \<open>(a) First. (1) One. (2) Two. (b) Second.\<close> the parser returns two
  nodes in this order: \<open>a\<close> with the text \<open>First.\<close> and the two children \<open>1\<close> (\<open>One.\<close>)
  and \<open>2\<close> (\<open>Two.\<close>), then \<open>b\<close> with the text \<open>Second.\<close> and no children.
\<close>

theorem parse_subsections_example:
  "parse_subsections ''(a) First. (1) One. (2) Two. (b) Second.'' =
     [Subsection ''a'' ''First.'' [Subsection ''1'' ''One.'' [], Subsection ''2'' ''Two.'' []],
      Subsection ''b'' ''Second.'' []]"
  by code_simp

subsection \<open>Identifiers\<close>

lemma akn_eq [simp]: "(akn a = akn b) = (a = b)"
  by (simp add: akn_def)

lemma child_subsection_section:
  "child_elems ''subsection'' (add_section_element sec) =
     map (\<lambda>sub. add_subsection_element sub (sec_number sec)) (sec_subsections sec)"
  by (auto simp: child_elems_def add_section_element_def Let_def add_subsection_element_def
      filter_map comp_def split: option.splits)

lemma child_paragraph_subsection:
  "child_elems ''paragraph'' (add_subsection_element sub num) =
     map (\<lambda>child. Element (akn ''paragraph'')
            [(''eId'', ''sec_'' @ num @ ''__subsec_'' @ sub_identifier sub @ ''__para_'' @ sub_identifier child)]
            None
            [Element (akn ''num'') [] (Some (''('' @ sub_identifier child @ '')'')) [],
             Element (akn ''content'') [] None [Element (akn ''p'') [] (Some (sub_text child)) []]])
       (sub_children sub)"
  by (simp add: child_elems_def add_subsection_element_def Let_def filter_map comp_def)

lemma all_eIds_example:
  "all_eIds (add_section_element
       \<lparr>sec_number = ''48-1-2'', sec_title = t, sec_text = x, sec_history = h, sec_chapter = c,
        sec_chapter_title = ct, sec_subsections = [Subsection ''a'' y []]\<rparr>) =
     [''sec_48-1-2'', ''sec_48-1-2__subsec_a'']"
  by (auto simp: add_section_element_def add_subsection_element_def create_eid_def Let_def
      split: option.splits)

text \<open>
  C2. The section element of a record with section number \<open>s\<close> has the identifier
  \<open>sec_\<close> + \<open>s\<close>; its subsection elements are those of the record's subsections, in
  order, each with the identifier \<open>sec_\<close> + \<open>s\<close> + \<open>__subsec_\<close> + the marker; the
  paragraph elements of each are those of its children, in order, each with the
  subsection's identifier + \<open>__para_\<close> + the marker. For the section number \<open>48-1-2\<close>
  and one subsection \<open>a\<close> without children, the identifiers of the whole section
  element are \<open>sec_48-1-2\<close> and \<open>sec_48-1-2__subsec_a\<close> and no other.
\<close>

theorem identifiers_derived:
  "eId (add_section_element sec) = Some (''sec_'' @ sec_number sec)
   \<and> map eId (child_elems ''subsection'' (add_section_element sec)) =
       map (\<lambda>sub. Some (''sec_'' @ sec_number sec @ ''__subsec_'' @ sub_identifier sub))
         (sec_subsections sec)
   \<and> map (\<lambda>e. map eId (child_elems ''paragraph'' e))
         (child_elems ''subsection'' (add_section_element sec)) =
       map (\<lambda>sub. map (\<lambda>child. Some (''sec_'' @ sec_number sec @ ''__subsec_'' @ sub_identifier sub
                                       @ ''__para_'' @ sub_identifier child)) (sub_children sub))
         (sec_subsections sec)
   \<and> all_eIds (add_section_element
         \<lparr>sec_number = ''48-1-2'', sec_title = t, sec_text = x, sec_history = h, sec_chapter = c,
          sec_chapter_title = ct, sec_subsections = [Subsection ''a'' y []]\<rparr>) =
       [''sec_48-1-2'', ''sec_48-1-2__subsec_a'']"
proof (intro conjI)
  show "eId (add_section_element sec) = Some (''sec_'' @ sec_number sec)"
    by (simp add: eId_def add_section_element_def Let_def create_eid_def)
  show "map eId (child_elems ''subsection'' (add_section_element sec)) =
       map (\<lambda>sub. Some (''sec_'' @ sec_number sec @ ''__subsec_'' @ sub_identifier sub))
         (sec_subsections sec)"
    by (simp add: child_subsection_section comp_def eId_def add_subsection_element_def Let_def)
  show "map (\<lambda>e. map eId (child_elems ''paragraph'' e))
         (child_elems ''subsection'' (add_section_element sec)) =
       map (\<lambda>sub. map (\<lambda>child. Some (''sec_'' @ sec_number sec @ ''__subsec_'' @ sub_identifier sub
                                       @ ''__para_'' @ sub_identifier child)) (sub_children sub))
         (sec_subsections sec)"
    by (simp add: child_subsection_section comp_def child_paragraph_subsection eId_def)
  show "all_eIds (add_section_element
         \<lparr>sec_number = ''48-1-2'', sec_title = t, sec_text = x, sec_history = h, sec_chapter = c,
          sec_chapter_title = ct, sec_subsections = [Subsection ''a'' y []]\<rparr>) =
       [''sec_48-1-2'', ''sec_48-1-2__subsec_a'']"
    by (rule all_eIds_example)
qed

subsection \<open>The date of the run\<close>

text \<open>
  C3, as stated: the tree is a function of the title number and the records alone. It is
  not: the manifestation block holds the date of the run.
\<close>

theorem document_depends_on_date:
  "\<not> (\<forall>d1 d2 n secs. create_akn_document d1 n secs = create_akn_document d2 n secs)"
proof
  assume "\<forall>d1 d2 n secs. create_akn_document d1 n secs = create_akn_document d2 n secs"
  then have "create_akn_document ''2026-11-03'' 48 [] = create_akn_document ''2026-11-04'' 48 []"
    by blast
  then show False
    by (simp add: create_akn_document_def meta_element_def frbr_manifestation_def)
qed

text \<open>
  C3, amended: two runs on the same title number and records give trees that are equal
  but for one attribute, the \<open>date\<close> of the \<open>FRBRdate\<close> element of the manifestation
  block (the third child of the third child of \<open>identification\<close>, the first child of
  \<open>meta\<close>, the first child of \<open>act\<close>), which holds the date of each run; runs on the same
  date give the same tree.
\<close>

theorem document_equal_but_for_date:
  "create_akn_document d1 n secs =
     update_at [0, 0, 0, 2, 2] (set_attr ''date'' d1) (create_akn_document d2 n secs)"
  by (simp add: create_akn_document_def meta_element_def frbr_manifestation_def set_attr_def)

subsection \<open>Truncation\<close>

lemma parse_child_bounded: "list_all (\<lambda>c. length (sub_text c) \<le> 2000) (parse_child p)"
  by (simp add: parse_child_def Let_def split: option.splits)

lemma list_all_concat_map: "(\<And>x. list_all P (f x)) \<Longrightarrow> list_all P (concat (map f xs))"
  by (induction xs) auto

lemma parse_part_bounded: "list_all node_bounded (parse_part p)"
  by (auto simp: parse_part_def Let_def node_bounded_def list_all_concat_map parse_child_bounded
      split: option.splits prod.splits)

lemma parse_subsections_bounded: "list_all node_bounded (parse_subsections t)"
  unfolding parse_subsections_def by (rule list_all_concat_map) (rule parse_part_bounded)

lemma p_texts_subsection:
  "p_texts gp par (add_subsection_element sub num) =
     (akn ''subsection'', akn ''content'', sub_text sub)
     # map (\<lambda>c. (akn ''paragraph'', akn ''content'', sub_text c)) (sub_children sub)"
  by (simp add: add_subsection_element_def Let_def comp_def)

lemma p_texts_subsection_ok:
  "node_bounded sub \<Longrightarrow> list_all within_limit (p_texts gp par (add_subsection_element sub num))"
  by (simp add: p_texts_subsection node_bounded_def within_limit_def text_limit_def list_all_iff)

lemma p_texts_section_ok:
  assumes "list_all node_bounded (sec_subsections sec)"
  shows "list_all within_limit (p_texts gp par (add_section_element sec))"
proof -
  have subs: "list_all within_limit
      (concat (map (\<lambda>sub. p_texts g p (add_subsection_element sub (sec_number sec)))
         (sec_subsections sec)))" for g p
    using assms by (auto simp: list_all_iff dest!: p_texts_subsection_ok [unfolded list_all_iff])
  have intro: "list_all within_limit [(akn ''section'', akn ''intro'', take 500 g)]" for g
    by (simp add: within_limit_def text_limit_def)
  have content: "list_all within_limit [(akn ''section'', akn ''content'', take 5000 g)]" for g
    by (simp add: within_limit_def text_limit_def)
  have history: "list_all within_limit [(akn ''notes'', akn ''note'', take 1000 g)]" for g
    by (simp add: within_limit_def text_limit_def)
  show ?thesis
    using subs intro content history
    by (simp add: add_section_element_def Let_def comp_def split: option.splits)
qed

lemma in_add_to_chapters:
  "(k, v) \<in> set (add_to_chapters acc sec) \<Longrightarrow> x \<in> set v \<Longrightarrow>
     x = sec \<or> (\<exists>v'. (k, v') \<in> set acc \<and> x \<in> set v')"
  by (auto simp: add_to_chapters_def Let_def split: if_splits)

lemma in_foldl_add_to_chapters:
  "(k, v) \<in> set (foldl add_to_chapters acc secs) \<Longrightarrow> x \<in> set v \<Longrightarrow>
     x \<in> set secs \<or> (\<exists>v'. (k, v') \<in> set acc \<and> x \<in> set v')"
proof (induction secs arbitrary: acc)
  case Nil
  then show ?case by auto
next
  case (Cons s secs)
  from Cons.IH [OF Cons.prems [simplified]] show ?case
    by (auto dest: in_add_to_chapters)
qed

lemma in_group_by_chapter:
  "(k, v) \<in> set (group_by_chapter secs) \<Longrightarrow> x \<in> set v \<Longrightarrow> x \<in> set secs"
  unfolding group_by_chapter_def by (drule (1) in_foldl_add_to_chapters) simp

lemma p_texts_chapter_ok:
  assumes "\<And>s. s \<in> set (snd item) \<Longrightarrow> list_all node_bounded (sec_subsections s)"
  shows "list_all within_limit (concat (map (p_texts gp par) (chapter_element n item)))"
proof -
  have "list_all within_limit (concat (map (p_texts g p) (map add_section_element (snd item))))" for g p
    using assms by (auto simp: list_all_iff dest!: p_texts_section_ok [unfolded list_all_iff])
  then show ?thesis
    by (simp add: chapter_element_def Let_def comp_def split: list.splits)
qed

lemma p_texts_body_ok:
  assumes "\<And>s. s \<in> set secs \<Longrightarrow> list_all node_bounded (sec_subsections s)"
  shows "list_all within_limit (p_texts gp par (body_element n secs))"
proof -
  have "list_all within_limit (concat (map (p_texts gp' par') (chapter_element n (k, v))))"
    if "(k, v) \<in> set (group_by_chapter secs)" for k v gp' par'
  proof (rule p_texts_chapter_ok)
    fix s assume "s \<in> set (snd (k, v))"
    with that have "s \<in> set secs" by (auto dest: in_group_by_chapter)
    then show "list_all node_bounded (sec_subsections s)" by (rule assms)
  qed
  then show ?thesis
    by (auto simp: body_element_def list_all_iff)
qed

lemma p_texts_meta: "p_texts gp par (meta_element today n) = []"
  by (simp add: meta_element_def frbr_work_def frbr_expression_def frbr_manifestation_def)

lemma parse_index_subsections:
  "s \<in> set (parse_index unescape index) \<Longrightarrow> sec_subsections s = parse_subsections (sec_text s)"
  by (auto simp: parse_index_def Let_def split: if_splits option.splits)

lemma parse_source_xml_bounded:
  "s \<in> set (parse_source_xml unescape indexes) \<Longrightarrow> list_all node_bounded (sec_subsections s)"
  by (auto simp: parse_source_xml_def parse_subsections_bounded dest!: parse_index_subsections)

text \<open>
  C6. Whatever the source document, the title number and the date, every text field of
  the tree built from the extracted records stands at a place that has a documented
  maximum and has at most that many characters: 2000 for the text of a subsection and
  of a paragraph, 500 for an intro, 5000 for the flat content of a section, 1000 for a
  history note.
\<close>

theorem text_fields_within_limits:
  "\<forall>x \<in> set (p_texts [] [] (create_akn_document today n (parse_source_xml unescape indexes))).
     within_limit x"
  using p_texts_body_ok [of "parse_source_xml unescape indexes", OF parse_source_xml_bounded]
  by (simp add: create_akn_document_def p_texts_meta list_all_iff)

theorem text_fields_within_limits_witness:
  "p_texts [] []
     (create_akn_document ''2026-11-03'' 48
        (parse_source_xml html_unescape
           [\<lparr>Level = Some ''3'', Caption = Some ''48-1-2'', Description = Some ''Definitions'',
             Content = Some ''(a) Means this.'', RevisionHistory = Some ''Code 1933.''\<rparr>])) =
     [(akn ''subsection'', akn ''content'', ''Means this.''), (akn ''notes'', akn ''note'', ''Code 1933.'')]
   \<and> within_limit (akn ''subsection'', akn ''content'', ''Means this.'')
   \<and> within_limit (akn ''notes'', akn ''note'', ''Code 1933.'')"
proof -
  let ?indexes = "[\<lparr>Level = Some ''3'', Caption = Some ''48-1-2'', Description = Some ''Definitions'',
             Content = Some ''(a) Means this.'', RevisionHistory = Some ''Code 1933.''\<rparr>]"
  have e: "p_texts [] [] (create_akn_document ''2026-11-03'' 48 (parse_source_xml html_unescape ?indexes)) =
     [(akn ''subsection'', akn ''content'', ''Means this.''), (akn ''notes'', akn ''note'', ''Code 1933.'')]"
    by code_simp
  from text_fields_within_limits [of "''2026-11-03''" 48 html_unescape ?indexes] e
  show ?thesis by simp
qed

subsection \<open>Grouping by chapter\<close>


lemma group_by_chapter_snoc:
  "group_by_chapter (xs @ [s]) = add_to_chapters (group_by_chapter xs) s"
  by (simp add: group_by_chapter_def)

lemma map_fst_extend:
  "map fst (map (\<lambda>(k, v). if k = c then (k, v @ [s]) else (k, v)) l) = map fst l"
  by (induction l) auto

lemma keys_add_to_chapters:
  "map fst (add_to_chapters g s) =
     (if chapter_key s \<in> set (map fst g) then map fst g else map fst g @ [chapter_key s])"
  unfolding add_to_chapters_def Let_def map_fst_extend by simp

lemma group_by_chapter_inv:
  "distinct (map fst (group_by_chapter xs))
   \<and> set (map fst (group_by_chapter xs)) = chapter_key ` set xs
   \<and> (\<forall>(k, v) \<in> set (group_by_chapter xs). v = filter (\<lambda>s. chapter_key s = k) xs)"
proof (induction xs rule: rev_induct)
  case Nil
  show ?case by (simp add: group_by_chapter_def)
next
  case (snoc s xs)
  let ?g = "group_by_chapter xs"
  let ?c = "chapter_key s"
  from snoc have d: "distinct (map fst ?g)"
    and k: "set (map fst ?g) = chapter_key ` set xs"
    and v: "\<And>k v. (k, v) \<in> set ?g \<Longrightarrow> v = filter (\<lambda>s. chapter_key s = k) xs"
    by auto
  have fresh: "filter (\<lambda>x. chapter_key x = ?c) xs = []" if "?c \<notin> set (map fst ?g)"
  proof -
    have "chapter_key x \<noteq> ?c" if "x \<in> set xs" for x
      using that \<open>?c \<notin> set (map fst ?g)\<close> unfolding k by (metis imageI)
    then show ?thesis by (simp add: filter_empty_conv)
  qed
  have vals: "v' = filter (\<lambda>x. chapter_key x = k') (xs @ [s])"
    if "(k', v') \<in> set (add_to_chapters ?g s)" for k' v'
  proof -
    from that obtain v0
      where v0: "(k', v0) \<in> set ?g \<or> (?c \<notin> set (map fst ?g) \<and> k' = ?c \<and> v0 = [])"
        and v': "v' = (if k' = ?c then v0 @ [s] else v0)"
      by (fastforce simp: add_to_chapters_def Let_def split: if_splits)
    from v0 have "v0 = filter (\<lambda>x. chapter_key x = k') xs"
      using v fresh by auto
    with v' show ?thesis by simp
  qed
  show ?case
    unfolding group_by_chapter_snoc
    using d k vals by (auto simp: keys_add_to_chapters)
qed

lemma map_insort_key: "map f (insort_key f x xs) = insort (f x) (map f xs)"
  by (induction xs) auto

lemma map_sort_key: "map f (sort_key f xs) = sort (map f xs)"
  by (induction xs) (auto simp: map_insort_key)

lemma sorted_keys:
  "map fst (sort_key fst (group_by_chapter xs)) = sorted_list_of_set (chapter_key ` set xs)"
proof -
  from group_by_chapter_inv [of xs]
  have d: "distinct (map fst (group_by_chapter xs))"
    and k: "set (map fst (group_by_chapter xs)) = chapter_key ` set xs"
    by blast+
  from d have "sorted_list_of_set (set (map fst (group_by_chapter xs))) = sort (map fst (group_by_chapter xs))"
    by (simp only: sorted_list_of_set_sort_remdups distinct_remdups_id)
  then show ?thesis
    unfolding k by (simp only: map_sort_key)
qed

lemma sorted_items:
  "sort_key fst (group_by_chapter xs) =
     map (\<lambda>k. (k, filter (\<lambda>s. chapter_key s = k) xs)) (sorted_list_of_set (chapter_key ` set xs))"
proof -
  let ?f = "\<lambda>k. filter (\<lambda>s. chapter_key s = k) xs"
  have "map (\<lambda>x. (fst x, ?f (fst x))) (sort_key fst (group_by_chapter xs)) = sort_key fst (group_by_chapter xs)"
    using group_by_chapter_inv [of xs] by (intro map_idI) auto
  then show ?thesis
    unfolding sorted_keys [symmetric] by (simp add: comp_def)
qed

lemma filter_sorted_list_of_set:
  "finite K \<Longrightarrow> filter P (sorted_list_of_set K) = sorted_list_of_set {k \<in> K. P k}"
  by (rule sorted_distinct_set_unique) (auto simp: sorted_filter [where f = "\<lambda>x. x", simplified])

lemma concat_map_skip:
  "(\<And>x. x \<in> set xs \<Longrightarrow> \<not> P x \<Longrightarrow> f x = []) \<Longrightarrow> concat (map f xs) = concat (map f (filter P xs))"
  by (induction xs) auto

lemma chapters_grouped_and_sorted:
  "subelements (body_element n secs) =
     concat (map (\<lambda>k. chapter_element n (k, filter (\<lambda>s. chapter_key s = k) secs))
       (sorted_list_of_set (chapter_key ` set secs - {[]})))"
proof -
  have eq: "{k \<in> chapter_key ` set secs. k \<noteq> []} = chapter_key ` set secs - {[]}" by auto
  have "concat (map (\<lambda>k. chapter_element n (k, filter (\<lambda>s. chapter_key s = k) secs))
          (sorted_list_of_set (chapter_key ` set secs))) =
        concat (map (\<lambda>k. chapter_element n (k, filter (\<lambda>s. chapter_key s = k) secs))
          (filter (\<lambda>k. k \<noteq> []) (sorted_list_of_set (chapter_key ` set secs))))"
    by (rule concat_map_skip) (simp add: chapter_element_def)
  then show ?thesis
    by (simp add: body_element_def sorted_items comp_def filter_sorted_list_of_set eq)
qed

lemma tag_section [simp]: "tag (add_section_element s) = akn ''section''"
  by (simp add: add_section_element_def Let_def)

lemma chapter_element_nonempty:
  "k \<noteq> [] \<Longrightarrow> \<exists>e. chapter_element n (k, v) = [e]
     \<and> eId e = Some (''chp_'' @ str_int n @ ''-'' @ k)
     \<and> child_elems ''section'' e = map add_section_element v"
  by (simp add: chapter_element_def Let_def eId_def child_elems_def filter_map comp_def split: list.splits)

lemma concat_map_singletons:
  "(\<And>x. x \<in> set xs \<Longrightarrow> f x = [g x]) \<Longrightarrow> concat (map f xs) = map g xs"
  by (induction xs) auto

lemma chapter_key_field: "chapter_key = chapter_field"
  by (rule ext) (simp add: chapter_key_def chapter_field_def split: option.splits)

lemma chapters_example:
  "map (\<lambda>e. (eId e, map eId (child_elems ''section'' e)))
     (subelements (body_element 48
        [\<lparr>sec_number = ''48-2-1'', sec_title = [], sec_text = [], sec_history = [],
          sec_chapter = Some ''2'', sec_chapter_title = [], sec_subsections = []\<rparr>,
         \<lparr>sec_number = ''48'', sec_title = [], sec_text = [], sec_history = [],
          sec_chapter = Some [], sec_chapter_title = [], sec_subsections = []\<rparr>,
         \<lparr>sec_number = ''48-10-1'', sec_title = [], sec_text = [], sec_history = [],
          sec_chapter = Some ''10'', sec_chapter_title = [], sec_subsections = []\<rparr>,
         \<lparr>sec_number = ''48-2-2'', sec_title = [], sec_text = [], sec_history = [],
          sec_chapter = Some ''2'', sec_chapter_title = [], sec_subsections = []\<rparr>])) =
     [(Some ''chp_48-10'', [Some ''sec_48-10-1'']),
      (Some ''chp_48-2'', [Some ''sec_48-2-1'', Some ''sec_48-2-2''])]"
  by code_simp

text \<open>
  C8. The children of the body are the chapter elements of the non-empty values of the
  records' chapter field, in increasing order (a record whose chapter field is the
  empty string gives no element and stands in no chapter); the sections of a chapter
  are the records whose chapter field has that value, in the order in which they stand
  in the input; the chapters are sorted and differ from each other. For four records
  with the chapters \<open>2\<close>, the empty string, \<open>10\<close> and \<open>2\<close>, the body holds the chapter
  \<open>10\<close> with the third record and then the chapter \<open>2\<close> with the first and the fourth.
\<close>

theorem chapters_sorted_sections_in_order:
  "subelements (body_element n secs) =
     concat (map (\<lambda>k. chapter_element n (k, filter (\<lambda>s. chapter_field s = k) secs)) (emitted_keys secs))
   \<and> sorted (emitted_keys secs) \<and> distinct (emitted_keys secs)
   \<and> set (emitted_keys secs) = chapter_field ` set secs - {[]}
   \<and> map eId (subelements (body_element n secs)) =
       map (\<lambda>k. Some (''chp_'' @ str_int n @ ''-'' @ k)) (emitted_keys secs)
   \<and> map (child_elems ''section'') (subelements (body_element n secs)) =
       map (\<lambda>k. map add_section_element (filter (\<lambda>s. chapter_field s = k) secs)) (emitted_keys secs)
   \<and> map (\<lambda>e. (eId e, map eId (child_elems ''section'' e)))
       (subelements (body_element 48
          [\<lparr>sec_number = ''48-2-1'', sec_title = [], sec_text = [], sec_history = [],
            sec_chapter = Some ''2'', sec_chapter_title = [], sec_subsections = []\<rparr>,
           \<lparr>sec_number = ''48'', sec_title = [], sec_text = [], sec_history = [],
            sec_chapter = Some [], sec_chapter_title = [], sec_subsections = []\<rparr>,
           \<lparr>sec_number = ''48-10-1'', sec_title = [], sec_text = [], sec_history = [],
            sec_chapter = Some ''10'', sec_chapter_title = [], sec_subsections = []\<rparr>,
           \<lparr>sec_number = ''48-2-2'', sec_title = [], sec_text = [], sec_history = [],
            sec_chapter = Some ''2'', sec_chapter_title = [], sec_subsections = []\<rparr>])) =
       [(Some ''chp_48-10'', [Some ''sec_48-10-1'']),
        (Some ''chp_48-2'', [Some ''sec_48-2-1'', Some ''sec_48-2-2''])]"
proof -
  let ?v = "\<lambda>k. filter (\<lambda>s. chapter_field s = k) secs"
  define g where "g k = hd (chapter_element n (k, ?v k))" for k
  have ks: "set (emitted_keys secs) = chapter_field ` set secs - {[]}"
    by (simp add: emitted_keys_def)
  have g: "chapter_element n (k, ?v k) = [g k] \<and> eId (g k) = Some (''chp_'' @ str_int n @ ''-'' @ k)
      \<and> child_elems ''section'' (g k) = map add_section_element (?v k)"
    if "k \<in> set (emitted_keys secs)" for k
  proof -
    from that ks have "k \<noteq> []" by auto
    from chapter_element_nonempty [OF this, of n "?v k"] obtain e
      where e: "chapter_element n (k, ?v k) = [e]" "eId e = Some (''chp_'' @ str_int n @ ''-'' @ k)"
        "child_elems ''section'' e = map add_section_element (?v k)" by blast
    then have "g k = e" unfolding g_def by simp
    with e show ?thesis by simp
  qed
  have main: "subelements (body_element n secs) = concat (map (\<lambda>k. chapter_element n (k, ?v k)) (emitted_keys secs))"
    unfolding emitted_keys_def by (rule chapters_grouped_and_sorted [unfolded chapter_key_field])
  have "concat (map (\<lambda>k. chapter_element n (k, ?v k)) (emitted_keys secs)) = map g (emitted_keys secs)"
    by (rule concat_map_singletons) (simp add: g)
  with main have kids: "subelements (body_element n secs) = map g (emitted_keys secs)" by simp
  have "map eId (map g (emitted_keys secs)) = map (\<lambda>k. Some (''chp_'' @ str_int n @ ''-'' @ k)) (emitted_keys secs)"
    using g by simp
  moreover have "map (child_elems ''section'') (map g (emitted_keys secs)) =
      map (\<lambda>k. map add_section_element (?v k)) (emitted_keys secs)"
    using g by simp
  moreover have "sorted (emitted_keys secs)" "distinct (emitted_keys secs)"
    by (simp_all add: emitted_keys_def)
  ultimately have "subelements (body_element n secs) =
     concat (map (\<lambda>k. chapter_element n (k, ?v k)) (emitted_keys secs))
   \<and> sorted (emitted_keys secs) \<and> distinct (emitted_keys secs)
   \<and> set (emitted_keys secs) = chapter_field ` set secs - {[]}
   \<and> map eId (subelements (body_element n secs)) =
       map (\<lambda>k. Some (''chp_'' @ str_int n @ ''-'' @ k)) (emitted_keys secs)
   \<and> map (child_elems ''section'') (subelements (body_element n secs)) =
       map (\<lambda>k. map add_section_element (?v k)) (emitted_keys secs)"
    using main ks unfolding kids by simp
  then show ?thesis using chapters_example by (elim conjE) (intro conjI, assumption+)
qed

subsection \<open>The section number pattern\<close>


lemma digits1_iff: "digits1 k s = (\<exists>a r. s = a @ r \<and> D a \<and> k r)"
proof
  assume "digits1 k s"
  then obtain n where "1 \<le> n" "n \<le> length s" "list_all is_digit (take n s)" "k (drop n s)"
    by (auto simp: digits1_def)
  then have "s = take n s @ drop n s \<and> D (take n s) \<and> k (drop n s)" by auto
  then show "\<exists>a r. s = a @ r \<and> D a \<and> k r" by blast
next
  assume "\<exists>a r. s = a @ r \<and> D a \<and> k r"
  then obtain a r where "s = a @ r" "a \<noteq> []" "list_all is_digit a" "k r" by blast
  then show "digits1 k s"
    unfolding digits1_def by (intro bexI [of _ "length a"]) (auto simp: Suc_le_eq)
qed

lemma lit_iff: "lit c k s = (\<exists>r. s = c # r \<and> k r)"
  by (auto simp: lit_def split: list.splits)

lemma is_section_number_iff:
  "is_section_number s =
     (\<exists>a b c. D a \<and> D b \<and> D c \<and>
        (s = a @ CHR ''-'' # b @ CHR ''-'' # c \<or> (\<exists>d. D d \<and> s = a @ CHR ''-'' # b @ CHR ''-'' # c @ CHR ''.'' # d)))"
  (is "?l = ?r")
proof
  assume ?l
  then obtain a b c r4 where abc: "D a" "D b" "D c" and s: "s = a @ CHR ''-'' # b @ CHR ''-'' # c @ r4"
    and r4: "r4 = [] \<or> (\<exists>d. D d \<and> r4 = CHR ''.'' # d)"
    unfolding is_section_number_def digits1_iff lit_iff by fastforce
  from r4 show ?r
  proof
    assume "r4 = []"
    with abc s show ?r by auto
  next
    assume "\<exists>d. D d \<and> r4 = CHR ''.'' # d"
    then obtain d where "D d" "r4 = CHR ''.'' # d" by blast
    with abc s show ?r by blast
  qed
next
  assume ?r
  then obtain a b c r4 where abc: "D a" "D b" "D c" and s: "s = a @ CHR ''-'' # b @ CHR ''-'' # c @ r4"
    and r4: "r4 = [] \<or> (\<exists>d. D d \<and> r4 = CHR ''.'' # d)"
    by fastforce
  have k3: "(\<lambda>r. r = [] \<or> lit CHR ''.'' (digits1 (\<lambda>r. r = [])) r) r4"
    using r4 unfolding digits1_iff lit_iff by auto
  have "digits1 (\<lambda>r. r = [] \<or> lit CHR ''.'' (digits1 (\<lambda>r. r = [])) r) (c @ r4)"
    unfolding digits1_iff [of _ "c @ r4"] using abc k3 by blast
  then have "lit CHR ''-'' (digits1 (\<lambda>r. r = [] \<or> lit CHR ''.'' (digits1 (\<lambda>r. r = [])) r)) (CHR ''-'' # c @ r4)"
    by (simp add: lit_def)
  then have "digits1 (lit CHR ''-'' (digits1 (\<lambda>r. r = [] \<or> lit CHR ''.'' (digits1 (\<lambda>r. r = [])) r))) (b @ CHR ''-'' # c @ r4)"
    unfolding digits1_iff [of _ "b @ CHR ''-'' # c @ r4"] using abc by blast
  then have "lit CHR ''-'' (digits1 (lit CHR ''-'' (digits1 (\<lambda>r. r = [] \<or> lit CHR ''.'' (digits1 (\<lambda>r. r = [])) r)))) (CHR ''-'' # b @ CHR ''-'' # c @ r4)"
    by (simp add: lit_def)
  then show ?l
    unfolding is_section_number_def s digits1_iff [of _ "a @ CHR ''-'' # b @ CHR ''-'' # c @ r4"] using abc by blast
qed


lemma re_search_SomeD:
  "re_search m s = Some (i, n) \<Longrightarrow> i \<le> length s \<and> m (drop i s) = Some n \<and> (\<forall>j<i. m (drop j s) = None)"
proof (induction s arbitrary: i)
  case Nil
  then show ?case by (auto split: option.splits)
next
  case (Cons c cs)
  show ?case
  proof (cases "m (c # cs)")
    case (Some k)
    with Cons.prems show ?thesis by auto
  next
    case None
    with Cons.prems obtain i' where i': "re_search m cs = Some (i', n)" "i = Suc i'"
      by (auto split: option.splits)
    from Cons.IH [OF i'(1)] None i'(2) show ?thesis
      by (auto simp: less_Suc_eq_0_disj)
  qed
qed

lemma re_search_NoneD:
  "re_search m s = None \<Longrightarrow> j \<le> length s \<Longrightarrow> m (drop j s) = None"
proof (induction s arbitrary: j)
  case Nil
  then show ?case by (auto split: option.splits)
next
  case (Cons c cs)
  then show ?case by (cases j) (auto split: option.splits)
qed

lemma not_digit_hyphen [simp]: "\<not> is_digit CHR ''-''"
  by (simp add: is_digit_def ord_def)

lemma not_digit_period [simp]: "\<not> is_digit CHR ''.''"
  by (simp add: is_digit_def ord_def)

lemma m_seq_Some:
  "(m_seq m1 m2 s = Some n) = (\<exists>a b. m1 s = Some a \<and> m2 (drop a s) = Some b \<and> n = a + b)"
  by (auto simp: m_seq_def split: option.splits)

lemma m_plus_Some:
  "(m_plus P s = Some n) = (takeWhile P s \<noteq> [] \<and> n = length (takeWhile P s))"
  by (auto simp: m_plus_def)

lemma m_chr_Some: "(m_chr c s = Some n) = (n = 1 \<and> (\<exists>r. s = c # r))"
  by (auto simp: m_chr_def m_one_def split: list.splits)

lemma run_then_chr:
  assumes "takeWhile P s \<noteq> []" and "drop (length (takeWhile P s)) s = c # r"
  shows "s = takeWhile P s @ c # r"
  using assms by (metis append_take_drop_id takeWhile_eq_take)

lemma takeWhile_all: "list_all P (takeWhile P s)"
  by (induction s) auto

lemma takeWhile_run_stop: "list_all P a \<Longrightarrow> \<not> P x \<Longrightarrow> takeWhile P (a @ x # r) = a"
  by (induction a) auto

lemma takeWhile_run_more: "list_all P a \<Longrightarrow> takeWhile P (a @ r) = a @ takeWhile P r"
  by (induction a) auto

lemma three_part_SomeD:
  assumes "m_three_part s = Some n"
  shows "\<exists>a b c r. s = a @ CHR ''-'' # b @ CHR ''-'' # c @ r \<and> D a \<and> D b \<and> D c
           \<and> n = length a + length b + length c + 2"
proof -
  from assms obtain n1 n2 n3 n4 n5
    where 1: "m_plus is_digit s = Some n1"
      and 2: "m_chr CHR ''-'' (drop n1 s) = Some n2"
      and 3: "m_plus is_digit (drop n2 (drop n1 s)) = Some n3"
      and 4: "m_chr CHR ''-'' (drop n3 (drop n2 (drop n1 s))) = Some n4"
      and 5: "m_plus is_digit (drop n4 (drop n3 (drop n2 (drop n1 s)))) = Some n5"
      and n: "n = n1 + (n2 + (n3 + (n4 + n5)))"
    unfolding m_three_part_def m_seq_Some by blast
  from 2 obtain s1 where n2: "n2 = 1" and s1: "drop n1 s = CHR ''-'' # s1"
    unfolding m_chr_Some by blast
  have d1: "drop n2 (drop n1 s) = s1" unfolding n2 s1 by simp
  from 4 obtain s2 where n4: "n4 = 1" and s2: "drop n3 s1 = CHR ''-'' # s2"
    unfolding m_chr_Some d1 by blast
  have d2: "drop n4 (drop n3 (drop n2 (drop n1 s))) = s2" unfolding d1 n4 s2 by simp
  from 1 have a: "takeWhile is_digit s \<noteq> []" "drop (length (takeWhile is_digit s)) s = CHR ''-'' # s1"
    and n1: "n1 = length (takeWhile is_digit s)"
    using s1 unfolding m_plus_Some by auto
  from 3 have b: "takeWhile is_digit s1 \<noteq> []" "drop (length (takeWhile is_digit s1)) s1 = CHR ''-'' # s2"
    and n3: "n3 = length (takeWhile is_digit s1)"
    using s2 unfolding m_plus_Some d1 by auto
  from 5 have c: "takeWhile is_digit s2 \<noteq> []" and n5: "n5 = length (takeWhile is_digit s2)"
    unfolding m_plus_Some d2 by auto
  have n: "n = length (takeWhile is_digit s) + length (takeWhile is_digit s1) + length (takeWhile is_digit s2) + 2"
    using n n1 n2 n3 n4 n5 by simp
  have "s = takeWhile is_digit s @ CHR ''-'' # s1" using a by (rule run_then_chr)
  moreover have "s1 = takeWhile is_digit s1 @ CHR ''-'' # s2" using b by (rule run_then_chr)
  moreover have "s2 = takeWhile is_digit s2 @ dropWhile is_digit s2" by simp
  ultimately have "s = takeWhile is_digit s @ CHR ''-'' # takeWhile is_digit s1 @ CHR ''-'' # takeWhile is_digit s2 @ dropWhile is_digit s2"
    by metis
  with a b c n show ?thesis
    using takeWhile_all [of is_digit] by blast
qed

lemma three_part_complete:
  assumes "D a" "D b" "D c"
  shows "m_three_part (a @ CHR ''-'' # b @ CHR ''-'' # c @ r) =
           Some (length a + length b + length c + 2 + length (takeWhile is_digit r))"
  using assms
  by (simp add: m_three_part_def m_seq_def m_plus_def m_chr_def m_one_def
      takeWhile_run_stop takeWhile_run_more)

lemma drop_three_part:
  "drop (length a + length b + length c + 2) (a @ CHR ''-'' # b @ CHR ''-'' # c @ r) = r"
  by simp

lemma take_three_part:
  "take (length a + length b + length c + 2) (a @ CHR ''-'' # b @ CHR ''-'' # c @ r) =
     a @ CHR ''-'' # b @ CHR ''-'' # c"
  by simp

lemma section_number_sound:
  assumes "m_section_number x = Some n"
  shows "n \<le> length x \<and> is_section_number (take n x)"
proof -
  from assms obtain n3 k where n3: "m_three_part x = Some n3"
    and k: "m_opt (m_seq (m_chr CHR ''.'') (m_plus is_digit)) (drop n3 x) = Some k" and n: "n = n3 + k"
    unfolding m_section_number_def m_seq_Some by blast
  from three_part_SomeD [OF n3] obtain a b c r
    where x: "x = a @ CHR ''-'' # b @ CHR ''-'' # c @ r" and abc: "D a" "D b" "D c"
      and n3': "n3 = length a + length b + length c + 2"
    by blast
  have r: "drop n3 x = r" unfolding x n3' by (rule drop_three_part)
  show ?thesis
  proof (cases "m_seq (m_chr CHR ''.'') (m_plus is_digit) r")
    case None
    with k r have "k = 0" by (simp add: m_opt_def)
    with n have "n = n3" by simp
    then have "take n x = a @ CHR ''-'' # b @ CHR ''-'' # c"
      unfolding x n3' by simp
    moreover have "n \<le> length x" using \<open>n = n3\<close> unfolding x n3' by simp
    ultimately show ?thesis
      using abc unfolding is_section_number_iff by blast
  next
    case (Some k')
    with k r have kk: "k = k'" by (simp add: m_opt_def)
    from Some obtain r' where r': "r = CHR ''.'' # r'" and d: "takeWhile is_digit r' \<noteq> []"
      and k': "k' = 1 + length (takeWhile is_digit r')"
      unfolding m_seq_Some m_chr_Some m_plus_Some by auto
    let ?d = "takeWhile is_digit r'"
    have xd: "x = (a @ CHR ''-'' # b @ CHR ''-'' # c @ CHR ''.'' # ?d) @ dropWhile is_digit r'"
      unfolding x r' by simp
    have len: "n = length (a @ CHR ''-'' # b @ CHR ''-'' # c @ CHR ''.'' # ?d)"
      using n n3' kk k' by simp
    have "take n x = a @ CHR ''-'' # b @ CHR ''-'' # c @ CHR ''.'' # ?d"
      using xd len by (metis append_eq_conv_conj)
    moreover have "n \<le> length x"
      using xd len by (metis length_append le_add1)
    moreover have "D ?d" using d takeWhile_all [of is_digit r'] by simp
    ultimately show ?thesis
      using abc unfolding is_section_number_iff by blast
  qed
qed

lemma section_from_three:
  "m_three_part y = Some n3 \<Longrightarrow> \<exists>k. m_section_number y = Some (n3 + k)"
  by (simp add: m_section_number_def m_seq_def m_opt_def split: option.splits)

lemma three_from_section:
  "m_section_number y = Some n \<Longrightarrow> \<exists>n3. m_three_part y = Some n3"
  by (auto simp: m_section_number_def m_seq_def split: option.splits)

lemma section_number_complete:
  assumes "is_section_number m"
  shows "\<exists>n. m_section_number (m @ post) = Some n \<and> length m \<le> n"
proof -
  from assms obtain a b c where abc: "D a" "D b" "D c"
    and m: "m = a @ CHR ''-'' # b @ CHR ''-'' # c \<or> (\<exists>d. D d \<and> m = a @ CHR ''-'' # b @ CHR ''-'' # c @ CHR ''.'' # d)"
    unfolding is_section_number_iff by blast
  from m show ?thesis
  proof
    assume m: "m = a @ CHR ''-'' # b @ CHR ''-'' # c"
    have "m_three_part (m @ post) = Some (length a + length b + length c + 2 + length (takeWhile is_digit post))"
      unfolding m using three_part_complete [OF abc, of post] by simp
    from section_from_three [OF this] obtain k where "m_section_number (m @ post) =
        Some (length a + length b + length c + 2 + length (takeWhile is_digit post) + k)"
      by blast
    then show ?thesis unfolding m by auto
  next
    assume "\<exists>d. D d \<and> m = a @ CHR ''-'' # b @ CHR ''-'' # c @ CHR ''.'' # d"
    then obtain d where d: "D d" and m: "m = a @ CHR ''-'' # b @ CHR ''-'' # c @ CHR ''.'' # d" by blast
    have t: "m_three_part (m @ post) = Some (length a + length b + length c + 2)"
      unfolding m using three_part_complete [OF abc, of "CHR ''.'' # d @ post"] by simp
    have dr: "drop (length a + length b + length c + 2) (m @ post) = CHR ''.'' # d @ post"
      unfolding m by simp
    have "m_seq (m_chr CHR ''.'') (m_plus is_digit) (CHR ''.'' # d @ post) =
            Some (1 + length (d @ takeWhile is_digit post))"
      using d by (simp add: m_seq_def m_chr_def m_one_def m_plus_def takeWhile_run_more)
    with t dr have "m_section_number (m @ post) =
        Some (length a + length b + length c + 2 + (1 + length (d @ takeWhile is_digit post)))"
      by (simp add: m_section_number_def m_seq_def m_opt_def)
    then show ?thesis unfolding m by auto
  qed
qed

lemma substring_matches:
  assumes "caption = pre @ m @ post" and "is_section_number m"
  shows "\<exists>n. m_section_number (drop (length pre) caption) = Some n \<and> length m \<le> n"
  using section_number_complete [OF assms(2), of post] assms(1) by simp

lemma search_finds_section_number:
  assumes "caption = pre @ m @ post" and "is_section_number m"
  shows "\<exists>i n. re_search m_section_number caption = Some (i, n)"
proof (rule ccontr)
  assume "\<not> ?thesis"
  then have "re_search m_section_number caption = None" by (cases "re_search m_section_number caption") auto
  from re_search_NoneD [OF this, of "length pre"] assms(1)
  have "m_section_number (drop (length pre) caption) = None" by simp
  with substring_matches [OF assms] show False by simp
qed

lemma search_section_number_SomeD:
  assumes "re_search m_section_number caption = Some (i, n)"
  shows "caption = take i caption @ take n (drop i caption) @ drop n (drop i caption)"
    and "is_section_number (take n (drop i caption))"
    and "length (take i caption) = i" and "length (take n (drop i caption)) = n"
    and "\<And>pre' m' post'. caption = pre' @ m' @ post' \<Longrightarrow> is_section_number m' \<Longrightarrow>
           i \<le> length pre' \<and> (length pre' = i \<longrightarrow> length m' \<le> n)"
proof -
  from re_search_SomeD [OF assms] have i: "i \<le> length caption"
    and m: "m_section_number (drop i caption) = Some n"
    and first: "\<And>j. j < i \<Longrightarrow> m_section_number (drop j caption) = None"
    by auto
  from section_number_sound [OF m] have n: "n \<le> length (drop i caption)"
    and sn: "is_section_number (take n (drop i caption))" by auto
  show "caption = take i caption @ take n (drop i caption) @ drop n (drop i caption)"
    by (simp only: append_take_drop_id)
  show "is_section_number (take n (drop i caption))" by (rule sn)
  show "length (take i caption) = i" using i by simp
  show "length (take n (drop i caption)) = n" using n by simp
  fix pre' m' post'
  assume c: "caption = pre' @ m' @ post'" and s: "is_section_number m'"
  from substring_matches [OF c s] obtain n' where
    n': "m_section_number (drop (length pre') caption) = Some n'" "length m' \<le> n'" by blast
  have "\<not> length pre' < i" using first [of "length pre'"] n' by auto
  moreover have "length m' \<le> n" if "length pre' = i" using n' m that by simp
  ultimately show "i \<le> length pre' \<and> (length pre' = i \<longrightarrow> length m' \<le> n)" by auto
qed

text \<open>
  C7. For the caption \<open>48-1-2 Definitions\<close> the result is \<open>48-1-2\<close>. For a caption that
  has a substring matching \<open>\\d+-\\d+-\\d+(\\.\\d+)?\<close>, the result is such a substring of
  the caption, no matching substring starts before it, and none that starts where it
  starts is longer (the first match, taken greedily). For a caption with no such
  substring, the result is the caption with every space and every period replaced by a
  hyphen.
\<close>

theorem extract_section_number_first_match:
  "extract_section_number ''48-1-2 Definitions'' = ''48-1-2''
   \<and> ((\<exists>pre m post. caption = pre @ m @ post \<and> is_section_number m) \<longrightarrow>
        (\<exists>pre post. caption = pre @ extract_section_number caption @ post
           \<and> is_section_number (extract_section_number caption)
           \<and> (\<forall>pre' m' post'. caption = pre' @ m' @ post' \<and> is_section_number m' \<longrightarrow>
                 length pre \<le> length pre'
                 \<and> (length pre' = length pre \<longrightarrow> length m' \<le> length (extract_section_number caption)))))
   \<and> (\<not> (\<exists>pre m post. caption = pre @ m @ post \<and> is_section_number m) \<longrightarrow>
        extract_section_number caption =
          map (\<lambda>c. if c = CHR '' '' \<or> c = CHR ''.'' then CHR ''-'' else c) caption)"
proof (intro conjI impI)
  show "extract_section_number ''48-1-2 Definitions'' = ''48-1-2''"
    by code_simp
next
  assume "\<exists>pre m post. caption = pre @ m @ post \<and> is_section_number m"
  then obtain i n where s: "re_search m_section_number caption = Some (i, n)"
    using search_finds_section_number by blast
  have e: "extract_section_number caption = take n (drop i caption)"
    by (simp add: extract_section_number_def s)
  note d = search_section_number_SomeD [OF s]
  show "\<exists>pre post. caption = pre @ extract_section_number caption @ post
           \<and> is_section_number (extract_section_number caption)
           \<and> (\<forall>pre' m' post'. caption = pre' @ m' @ post' \<and> is_section_number m' \<longrightarrow>
                 length pre \<le> length pre'
                 \<and> (length pre' = length pre \<longrightarrow> length m' \<le> length (extract_section_number caption)))"
    unfolding e
    apply (rule exI [of _ "take i caption"])
    apply (rule exI [of _ "drop n (drop i caption)"])
    using d(1) d(2) d(5) unfolding d(3) d(4) by blast
next
  assume no: "\<not> (\<exists>pre m post. caption = pre @ m @ post \<and> is_section_number m)"
  have "re_search m_section_number caption = None"
  proof (cases "re_search m_section_number caption")
    case None
    then show ?thesis .
  next
    case (Some p)
    obtain i n where "p = (i, n)" by (cases p)
    with Some search_section_number_SomeD(1,2) [of caption i n] no show ?thesis by blast
  qed
  then show "extract_section_number caption =
          map (\<lambda>c. if c = CHR '' '' \<or> c = CHR ''.'' then CHR ''-'' else c) caption"
    by (simp add: extract_section_number_def replace_char_def)
qed

theorem extract_section_number_first_match_witness:
  "(\<exists>pre m post. ''Sec. 48-1-2.1 Definitions'' = pre @ m @ post \<and> is_section_number m)
   \<and> extract_section_number ''Sec. 48-1-2.1 Definitions'' = ''48-1-2.1''
   \<and> is_section_number ''48-1-2.1''
   \<and> \<not> (\<exists>pre m post. ''Title 48. Revenue'' = pre @ m @ post \<and> is_section_number m)
   \<and> extract_section_number ''Title 48. Revenue'' = ''Title-48--Revenue''"
proof -
  have sn: "is_section_number ''48-1-2.1''" by code_simp
  have h1: "\<exists>pre m post. ''Sec. 48-1-2.1 Definitions'' = pre @ m @ post \<and> is_section_number m"
    using sn by (intro exI [of _ "''Sec. ''"] exI [of _ "''48-1-2.1''"] exI [of _ "'' Definitions''"]) simp
  have none: "re_search m_section_number ''Title 48. Revenue'' = None" by code_simp
  have h2: "\<not> (\<exists>pre m post. ''Title 48. Revenue'' = pre @ m @ post \<and> is_section_number m)"
    using search_finds_section_number [of "''Title 48. Revenue''"] none by fastforce
  have e1: "extract_section_number ''Sec. 48-1-2.1 Definitions'' = ''48-1-2.1''" by code_simp
  from extract_section_number_first_match [of "''Sec. 48-1-2.1 Definitions''"] h1
  have a: "is_section_number (extract_section_number ''Sec. 48-1-2.1 Definitions'')" by blast
  from extract_section_number_first_match [of "''Title 48. Revenue''"] h2
  have b: "extract_section_number ''Title 48. Revenue'' =
      map (\<lambda>c. if c = CHR '' '' \<or> c = CHR ''.'' then CHR ''-'' else c) ''Title 48. Revenue''" by blast
  from h1 h2 a b e1 show ?thesis by simp
qed

lemma split_on_not_Nil [simp]: "split_on sep s \<noteq> []"
  by (induction s) (auto split: list.splits)

lemma split_on_no_sep: "sep \<notin> set a \<Longrightarrow> split_on sep (a @ sep # t) = a # split_on sep t"
  by (induction a) (auto split: list.splits)

lemma digits_no_hyphen: "list_all is_digit a \<Longrightarrow> CHR ''-'' \<notin> set a"
  by (auto simp: list_all_iff)

lemma chapter_of_section_number:
  assumes "is_section_number s"
  shows "1 < length (split_on CHR ''-'' s) \<and> D (split_on CHR ''-'' s ! 1)"
proof -
  from assms obtain a b t where "D a" "D b" and s: "s = a @ CHR ''-'' # b @ CHR ''-'' # t"
    unfolding is_section_number_iff by blast
  then have "split_on CHR ''-'' s = a # b # split_on CHR ''-'' t"
    by (simp add: split_on_no_sep digits_no_hyphen)
  with \<open>D b\<close> show ?thesis by simp
qed

lemma three_part_found_section_found:
  assumes "re_search m_three_part c \<noteq> None"
  shows "re_search m_section_number c \<noteq> None"
proof
  assume none: "re_search m_section_number c = None"
  from assms obtain i n where "re_search m_three_part c = Some (i, n)" by auto
  from re_search_SomeD [OF this] have i: "i \<le> length c" and "m_three_part (drop i c) = Some n" by auto
  from section_from_three [OF this(2)] re_search_NoneD [OF none i] show False by auto
qed

lemma parse_index_record:
  "r \<in> set (parse_index unescape index) \<Longrightarrow>
     \<exists>caption_text. re_search m_three_part caption_text \<noteq> None
       \<and> sec_number r = extract_section_number caption_text
       \<and> sec_chapter r = Some (if 1 < length (split_on CHR ''-'' (sec_number r))
                                then split_on CHR ''-'' (sec_number r) ! 1 else [])"
  by (auto simp: parse_index_def Let_def split: if_splits option.splits)

lemma extracted_record:
  assumes "r \<in> set (parse_source_xml unescape indexes)"
  shows "is_section_number (sec_number r)
         \<and> (\<exists>c. sec_chapter r = Some c \<and> c \<noteq> [] \<and> list_all is_digit c)"
proof -
  from assms obtain index where "r \<in> set (parse_index unescape index)"
    by (auto simp: parse_source_xml_def)
  from parse_index_record [OF this] obtain caption_text
    where f: "re_search m_three_part caption_text \<noteq> None"
      and n: "sec_number r = extract_section_number caption_text"
      and c: "sec_chapter r = Some (if 1 < length (split_on CHR ''-'' (sec_number r))
                                then split_on CHR ''-'' (sec_number r) ! 1 else [])"
    by blast
  from three_part_found_section_found [OF f] obtain i k
    where s: "re_search m_section_number caption_text = Some (i, k)" by auto
  have "sec_number r = take k (drop i caption_text)"
    by (simp add: n extract_section_number_def s)
  with search_section_number_SomeD(2) [OF s] have sn: "is_section_number (sec_number r)" by simp
  from chapter_of_section_number [OF sn] c show ?thesis using sn by auto
qed

text \<open>
  C10. A caption that passes the extractor's filter \<open>\\d+-\\d+-\\d+\<close> is matched by the
  pattern of \<open>extract_section_number\<close>, so the fallback is not taken. Every record that
  \<open>parse_source_xml\<close> returns has a section number that matches
  \<open>\\d+-\\d+-\\d+(\\.\\d+)?\<close> as a whole and a chapter that is a non-empty string of
  digits; so no group of the builder has the empty key, and the branch that drops the
  empty chapter is not taken for these records.
\<close>

theorem extracted_records_have_chapters:
  "(\<forall>caption. re_search m_three_part caption \<noteq> None \<longrightarrow> re_search m_section_number caption \<noteq> None)
   \<and> (\<forall>r \<in> set (parse_source_xml unescape indexes).
         is_section_number (sec_number r)
         \<and> (\<exists>c. sec_chapter r = Some c \<and> c \<noteq> [] \<and> list_all is_digit c))
   \<and> (\<forall>item \<in> set (group_by_chapter (parse_source_xml unescape indexes)). fst item \<noteq> [])"
proof -
  have a: "\<forall>caption. re_search m_three_part caption \<noteq> None \<longrightarrow> re_search m_section_number caption \<noteq> None"
    using three_part_found_section_found by blast
  have b: "\<forall>r \<in> set (parse_source_xml unescape indexes).
         is_section_number (sec_number r)
         \<and> (\<exists>c. sec_chapter r = Some c \<and> c \<noteq> [] \<and> list_all is_digit c)"
    using extracted_record by blast
  have c: "\<forall>item \<in> set (group_by_chapter (parse_source_xml unescape indexes)). fst item \<noteq> []"
  proof
    fix item assume "item \<in> set (group_by_chapter (parse_source_xml unescape indexes))"
    then have "fst item \<in> set (map fst (group_by_chapter (parse_source_xml unescape indexes)))" by simp
    then have "fst item \<in> chapter_key ` set (parse_source_xml unescape indexes)"
      using group_by_chapter_inv [of "parse_source_xml unescape indexes"] by blast
    then obtain r where r: "r \<in> set (parse_source_xml unescape indexes)" and k: "fst item = chapter_key r"
      by blast
    from extracted_record [OF r] k show "fst item \<noteq> []"
      by (auto simp: chapter_key_def)
  qed
  from a b c show ?thesis by blast
qed

theorem extracted_records_have_chapters_witness:
  "re_search m_three_part ''48-1-2'' \<noteq> None
   \<and> re_search m_section_number ''48-1-2'' \<noteq> None
   \<and> map sec_number (parse_source_xml html_unescape
        [\<lparr>Level = Some ''3'', Caption = Some ''48-1-2'', Description = Some ''Definitions'',
          Content = Some ''(a) Means this.'', RevisionHistory = None\<rparr>]) = [''48-1-2'']
   \<and> is_section_number ''48-1-2''
   \<and> map fst (group_by_chapter (parse_source_xml html_unescape
        [\<lparr>Level = Some ''3'', Caption = Some ''48-1-2'', Description = Some ''Definitions'',
          Content = Some ''(a) Means this.'', RevisionHistory = None\<rparr>])) = [''1'']"
proof -
  let ?ix = "[\<lparr>Level = Some ''3'', Caption = Some ''48-1-2'', Description = Some ''Definitions'',
          Content = Some ''(a) Means this.'', RevisionHistory = None\<rparr>]"
  have h: "re_search m_three_part ''48-1-2'' \<noteq> None" by code_simp
  have n: "map sec_number (parse_source_xml html_unescape ?ix) = [''48-1-2'']" by code_simp
  have g: "map fst (group_by_chapter (parse_source_xml html_unescape ?ix)) = [''1'']" by code_simp
  note t = extracted_records_have_chapters [of html_unescape ?ix]
  from t h have a: "re_search m_section_number ''48-1-2'' \<noteq> None" by blast
  from t have "\<forall>r \<in> set (parse_source_xml html_unescape ?ix). is_section_number (sec_number r)" by blast
  then have "\<forall>x \<in> set (map sec_number (parse_source_xml html_unescape ?ix)). is_section_number x" by simp
  then have b: "is_section_number ''48-1-2''" unfolding n by simp
  from h a n b g show ?thesis by blast
qed

subsection \<open>The intro block and the flat content\<close>

lemma m_letter_iff: "(m_letter s \<noteq> None) = starts_with_marker s"
  by (auto simp: m_letter_def m_seq_def m_chr_def m_one_def starts_with_marker_def
      split: option.splits list.splits if_splits)

lemma m_letter_Some: "m_letter s = Some n \<Longrightarrow> n = 3"
  by (auto simp: m_letter_def m_seq_def m_chr_def m_one_def
      split: option.splits list.splits if_splits)

lemma ahead_letter_iff: "ahead_letter s = starts_with_spaced_marker s"
  by (auto simp: ahead_letter_def m_letter_def m_seq_def m_chr_def m_one_def starts_with_spaced_marker_def
      split: option.splits list.splits if_splits)

lemma before_first_marker_search:
  "before_first_marker s = (case re_search m_letter s of Some (i, n) \<Rightarrow> Some (take i s) | None \<Rightarrow> None)"
proof (induction s)
  case Nil
  show ?case by (simp add: m_letter_def m_seq_def m_chr_def m_one_def)
next
  case (Cons c cs)
  show ?case
  proof (cases "starts_with_marker (c # cs)")
    case True
    then obtain n where "m_letter (c # cs) = Some n" using m_letter_iff [of "c # cs"] by auto
    with True show ?thesis by simp
  next
    case False
    then have "m_letter (c # cs) = None" using m_letter_iff [of "c # cs"] by auto
    with False Cons show ?thesis by (auto split: option.splits)
  qed
qed

lemma intro_match_before:
  assumes "\<not> starts_with_marker s"
  shows "intro_match s = before_first_marker s"
proof (cases s)
  case Nil
  then show ?thesis by (simp add: intro_match_def)
next
  case (Cons c cs)
  from assms Cons have nm: "\<not> starts_with_marker (c # cs)" by simp
  have "before_first_marker (c # cs) =
      (case before_first_marker cs of None \<Rightarrow> None | Some pre \<Rightarrow> Some (c # pre))"
    using nm by simp
  also have "\<dots> = (case re_search m_letter cs of Some (i, n) \<Rightarrow> Some (take (Suc i) (c # cs)) | None \<Rightarrow> None)"
    unfolding before_first_marker_search [of cs] by (simp split: option.splits)
  finally show ?thesis by (simp add: intro_match_def Cons)
qed

lemma starts_with_marker_prefix:
  assumes "cur \<noteq> []" and "starts_with_marker (cur @ c # cs)" and "starts_with_spaced_marker (c # cs)"
  shows "starts_with_marker cur"
proof -
  from assms(3) have c: "c = CHR ''(''"
    by (auto simp: starts_with_spaced_marker_def split: list.splits)
  have nl: "\<not> is_lower CHR ''(''" by (simp add: is_lower_def ord_def)
  from assms(1) obtain a r where cur: "cur = a # r" by (cases cur) auto
  show ?thesis
  proof (cases r)
    case Nil
    with assms(2) cur c nl show ?thesis by (auto simp: starts_with_marker_def split: list.splits)
  next
    case (Cons x r')
    show ?thesis
    proof (cases r')
      case Nil
      with assms(2) cur c Cons show ?thesis by (auto simp: starts_with_marker_def split: list.splits)
    next
      case (Cons b r'')
      with assms(2) cur \<open>r = x # r'\<close> show ?thesis by (auto simp: starts_with_marker_def)
    qed
  qed
qed

lemma spaced_is_marker: "starts_with_spaced_marker s \<Longrightarrow> starts_with_marker s"
  by (auto simp: starts_with_spaced_marker_def starts_with_marker_def split: list.splits)

lemma split_ahead_pieces:
  "cur \<noteq> [] \<Longrightarrow> starts_with_marker (cur @ s) \<Longrightarrow>
     \<forall>p \<in> set (split_ahead ahead_letter cur s). starts_with_marker p"
proof (induction s arbitrary: cur)
  case Nil
  then show ?case by simp
next
  case (Cons c cs)
  show ?case
  proof (cases "ahead_letter (c # cs)")
    case True
    then have sp: "starts_with_spaced_marker (c # cs)" by (simp add: ahead_letter_iff)
    from starts_with_marker_prefix [OF Cons.prems sp] have "starts_with_marker cur" .
    moreover from Cons.IH [of "[c]"] spaced_is_marker [OF sp]
    have "\<forall>p \<in> set (split_ahead ahead_letter [c] cs). starts_with_marker p" by simp
    ultimately show ?thesis using True by simp
  next
    case False
    with Cons.IH [of "cur @ [c]"] Cons.prems show ?thesis by simp
  qed
qed

lemma split_ahead_tl_pieces:
  "\<forall>p \<in> set (tl (split_ahead ahead_letter cur s)). starts_with_marker p"
proof (induction s arbitrary: cur)
  case Nil
  show ?case by simp
next
  case (Cons c cs)
  show ?case
  proof (cases "ahead_letter (c # cs)")
    case True
    then have sp: "starts_with_spaced_marker (c # cs)" by (simp add: ahead_letter_iff)
    from split_ahead_pieces [of "[c]" cs] spaced_is_marker [OF sp] True show ?thesis by simp
  next
    case False
    with Cons.IH [of "cur @ [c]"] show ?thesis by simp
  qed
qed

lemma split_ahead_not_Nil [simp]: "split_ahead ahead cur s \<noteq> []"
  by (induction s arbitrary: cur) auto

lemma split_ahead_tl_Nil:
  "(tl (split_ahead ahead_letter cur s) = []) = (\<not> has_spaced_marker s)"
  by (induction s arbitrary: cur) (auto simp: ahead_letter_iff)

lemma parse_part_marker: "starts_with_marker p \<Longrightarrow> parse_part p \<noteq> []"
proof -
  assume "starts_with_marker p"
  then obtain n where "m_letter p = Some n" using m_letter_iff [of p] by auto
  then obtain e where "m_letter_ws p = Some e"
    by (simp add: m_letter_ws_def m_seq_def m_star_def)
  then show ?thesis
    by (simp add: parse_part_def Let_def split: option.splits prod.splits)
qed

lemma parse_subsections_Nil: "(parse_subsections s = []) = (\<not> has_spaced_marker s)"
proof -
  have "(parse_subsections s = []) = (tl (re_split_ahead ahead_letter s) = [])"
    using split_ahead_tl_pieces [of "[]" s] parse_part_marker
    by (auto simp: parse_subsections_def re_split_ahead_def)
  then show ?thesis by (simp add: re_split_ahead_def split_ahead_tl_Nil)
qed

lemma section_without_subsections:
  "sec_subsections sec = [] \<Longrightarrow>
     child_elems ''content'' (add_section_element sec) =
       [Element (akn ''content'') [] None [Element (akn ''p'') [] (Some (take 5000 (sec_text sec))) []]]
     \<and> child_elems ''intro'' (add_section_element sec) = []
     \<and> child_elems ''subsection'' (add_section_element sec) = []"
  by (simp add: child_elems_def add_section_element_def Let_def)

lemma tag_subsection [simp]: "tag (add_subsection_element sub num) = akn ''subsection''"
  by (simp add: add_subsection_element_def Let_def)

lemma intro_match_Cons:
  "intro_match (c # cs) =
     (case before_first_marker cs of None \<Rightarrow> None | Some pre \<Rightarrow> Some (c # pre))"
  unfolding before_first_marker_search [of cs]
  by (simp add: intro_match_def split: option.splits)

lemma intro_match_designed:
  assumes "\<not> (starts_with_marker s \<and> marker_after_start s)"
  shows "intro_match s =
     (case before_first_marker s of None \<Rightarrow> None | Some pre \<Rightarrow> if pre = [] then None else Some pre)"
proof (cases s)
  case Nil
  then show ?thesis by (simp add: intro_match_def)
next
  case (Cons c cs)
  show ?thesis
  proof (cases "starts_with_marker (c # cs)")
    case True
    with assms Cons have "before_first_marker cs = None"
      by (simp add: marker_after_start_def)
    with True show ?thesis unfolding Cons intro_match_Cons by simp
  next
    case False
    then have "before_first_marker (c # cs) =
        (case before_first_marker cs of None \<Rightarrow> None | Some pre \<Rightarrow> Some (c # pre))"
      by simp
    then show ?thesis unfolding Cons intro_match_Cons by (simp split: option.splits)
  qed
qed

lemma section_with_subsections:
  assumes "sec_subsections sec \<noteq> []"
  shows "child_elems ''content'' (add_section_element sec) = []
     \<and> child_elems ''subsection'' (add_section_element sec) =
         map (\<lambda>sub. add_subsection_element sub (sec_number sec)) (sec_subsections sec)
     \<and> filter (\<lambda>k. tag k = akn ''intro'' \<or> tag k = akn ''subsection'') (subelements (add_section_element sec)) =
         child_elems ''intro'' (add_section_element sec)
         @ map (\<lambda>sub. add_subsection_element sub (sec_number sec)) (sec_subsections sec)
     \<and> child_elems ''intro'' (add_section_element sec) =
         (case intro_match (sec_text sec) of
            None \<Rightarrow> []
          | Some g \<Rightarrow> [Element (akn ''intro'') [] None
                         [Element (akn ''p'') [] (Some (take 500 (strip g))) []]])"
proof -
  have f1: "filter (\<lambda>k. tag k = akn ''content'') (map (\<lambda>sub. add_subsection_element sub n) subs) = []" for n subs
    by (induction subs) auto
  have f2: "filter (\<lambda>k. tag k = akn ''intro'' \<or> tag k = akn ''subsection'')
      (map (\<lambda>sub. add_subsection_element sub n) subs) = map (\<lambda>sub. add_subsection_element sub n) subs" for n subs
    by (induction subs) auto
  have f3: "filter (\<lambda>k. tag k = akn ''intro'') (map (\<lambda>sub. add_subsection_element sub n) subs) = []" for n subs
    by (induction subs) auto
  show ?thesis
    using assms
    by (simp add: child_subsection_section)
       (simp add: child_elems_def add_section_element_def Let_def f1 f2 f3 split: option.splits)
qed

lemma intro_as_designed:
  assumes "sec_subsections sec \<noteq> []"
    and "\<not> (starts_with_marker (sec_text sec) \<and> marker_after_start (sec_text sec))"
  shows "child_elems ''intro'' (add_section_element sec) =
         (case before_first_marker (sec_text sec) of
            None \<Rightarrow> []
          | Some pre \<Rightarrow>
              if pre = [] then []
              else [Element (akn ''intro'') [] None
                      [Element (akn ''p'') [] (Some (take 500 (strip pre))) []]])"
  using section_with_subsections [OF assms(1)]
  by (simp add: intro_match_designed [OF assms(2)] split: option.splits)

text \<open>
  Outside the amended claim: a body that begins with a lettered marker and has another
  one later. The lazy \<open>.+?\<close> of the intro pattern needs one character, so it passes over
  the marker at the start and stops at the later one: for \<open>(a) Foo. (b) Bar.\<close> the intro
  block repeats the text of the first subsection, \<open>(a) Foo.\<close>, although no text stands
  before the first marker.
\<close>

lemma intro_repeats_first_subsection:
  "before_first_marker ''(a) Foo. (b) Bar.'' = Some []
   \<and> parse_subsections ''(a) Foo. (b) Bar.'' = [Subsection ''a'' ''Foo.'' [], Subsection ''b'' ''Bar.'' []]
   \<and> child_elems ''intro'' (add_section_element
        \<lparr>sec_number = ''48-1-2'', sec_title = ''Definitions'', sec_text = ''(a) Foo. (b) Bar.'',
         sec_history = [], sec_chapter = Some ''1'', sec_chapter_title = [],
         sec_subsections = parse_subsections ''(a) Foo. (b) Bar.''\<rparr>) =
       [Element (akn ''intro'') [] None [Element (akn ''p'') [] (Some ''(a) Foo.'') []]]"
  by code_simp

text \<open>
  C5, as stated: with subsections, an intro block is emitted whose text is everything
  before the first lettered marker, cut to 500 characters. It is not: for the body
  \<open>Intro. (a) Foo.\<close> the text before the marker is \<open>Intro. \<close> with its space, the
  intro block holds \<open>Intro.\<close>; for the body \<open>(a) Means this.\<close> no intro block is
  emitted; for the body \<open>(a) Foo. (b) Bar.\<close> nothing stands before the first marker and
  the intro block holds \<open>(a) Foo.\<close>.
\<close>

theorem intro_is_stripped_or_absent:
  "sec_subsections
      \<lparr>sec_number = ''48-1-2'', sec_title = ''Definitions'', sec_text = ''Intro. (a) Foo.'',
       sec_history = [], sec_chapter = Some ''1'', sec_chapter_title = [],
       sec_subsections = parse_subsections ''Intro. (a) Foo.''\<rparr> \<noteq> []
   \<and> before_first_marker ''Intro. (a) Foo.'' = Some ''Intro. ''
   \<and> child_elems ''intro'' (add_section_element
        \<lparr>sec_number = ''48-1-2'', sec_title = ''Definitions'', sec_text = ''Intro. (a) Foo.'',
         sec_history = [], sec_chapter = Some ''1'', sec_chapter_title = [],
         sec_subsections = parse_subsections ''Intro. (a) Foo.''\<rparr>) =
       [Element (akn ''intro'') [] None [Element (akn ''p'') [] (Some ''Intro.'') []]]
   \<and> child_elems ''intro'' (add_section_element
        \<lparr>sec_number = ''48-1-2'', sec_title = ''Definitions'', sec_text = ''Intro. (a) Foo.'',
         sec_history = [], sec_chapter = Some ''1'', sec_chapter_title = [],
         sec_subsections = parse_subsections ''Intro. (a) Foo.''\<rparr>) \<noteq>
       [Element (akn ''intro'') [] None [Element (akn ''p'') [] (Some (take 500 ''Intro. '')) []]]
   \<and> sec_subsections
      \<lparr>sec_number = ''48-1-2'', sec_title = ''Definitions'', sec_text = ''(a) Means this.'',
       sec_history = [], sec_chapter = Some ''1'', sec_chapter_title = [],
       sec_subsections = parse_subsections ''(a) Means this.''\<rparr> \<noteq> []
   \<and> child_elems ''intro'' (add_section_element
        \<lparr>sec_number = ''48-1-2'', sec_title = ''Definitions'', sec_text = ''(a) Means this.'',
         sec_history = [], sec_chapter = Some ''1'', sec_chapter_title = [],
         sec_subsections = parse_subsections ''(a) Means this.''\<rparr>) = []
   \<and> sec_subsections
      \<lparr>sec_number = ''48-1-2'', sec_title = ''Definitions'', sec_text = ''(a) Foo. (b) Bar.'',
       sec_history = [], sec_chapter = Some ''1'', sec_chapter_title = [],
       sec_subsections = parse_subsections ''(a) Foo. (b) Bar.''\<rparr> \<noteq> []
   \<and> before_first_marker ''(a) Foo. (b) Bar.'' = Some []
   \<and> child_elems ''intro'' (add_section_element
        \<lparr>sec_number = ''48-1-2'', sec_title = ''Definitions'', sec_text = ''(a) Foo. (b) Bar.'',
         sec_history = [], sec_chapter = Some ''1'', sec_chapter_title = [],
         sec_subsections = parse_subsections ''(a) Foo. (b) Bar.''\<rparr>) =
       [Element (akn ''intro'') [] None [Element (akn ''p'') [] (Some ''(a) Foo.'') []]]"
  by code_simp

text \<open>
  C5, amended. A record without subsections gives one flat content block with the body
  text cut to 5000 characters, no intro block and no subsection element. A record with
  subsections gives no flat content block and the subsection elements of its
  subsections in order, after the intro block if there is one. Unless its body text
  begins with a lettered marker and has another lettered marker later, a record with
  subsections gives an intro block exactly when text stands before the first lettered
  marker of the body (followed by whitespace or not), and the block holds that text,
  stripped of the whitespace at its ends and then cut to 500 characters. The parser
  returns no subsection exactly when the text has no lettered marker followed by
  whitespace.
\<close>

theorem intro_and_flat_content:
  "(sec_subsections sec = [] \<longrightarrow>
      child_elems ''content'' (add_section_element sec) =
        [Element (akn ''content'') [] None [Element (akn ''p'') [] (Some (take 5000 (sec_text sec))) []]]
      \<and> child_elems ''intro'' (add_section_element sec) = []
      \<and> child_elems ''subsection'' (add_section_element sec) = [])
   \<and> (sec_subsections sec \<noteq> [] \<longrightarrow>
      child_elems ''content'' (add_section_element sec) = []
      \<and> child_elems ''subsection'' (add_section_element sec) =
          map (\<lambda>sub. add_subsection_element sub (sec_number sec)) (sec_subsections sec)
      \<and> filter (\<lambda>k. tag k = akn ''intro'' \<or> tag k = akn ''subsection'')
           (subelements (add_section_element sec)) =
          child_elems ''intro'' (add_section_element sec)
          @ map (\<lambda>sub. add_subsection_element sub (sec_number sec)) (sec_subsections sec))
   \<and> (sec_subsections sec \<noteq> []
        \<and> \<not> (starts_with_marker (sec_text sec) \<and> marker_after_start (sec_text sec)) \<longrightarrow>
      child_elems ''intro'' (add_section_element sec) =
        (case before_first_marker (sec_text sec) of
           None \<Rightarrow> []
         | Some pre \<Rightarrow>
             if pre = [] then []
             else [Element (akn ''intro'') [] None
                     [Element (akn ''p'') [] (Some (take 500 (strip pre))) []]]))
   \<and> ((parse_subsections s = []) = (\<not> has_spaced_marker s))"
  using section_without_subsections [of sec] section_with_subsections [of sec]
    intro_as_designed [of sec] parse_subsections_Nil [of s]
  by blast

theorem intro_and_flat_content_witness:
  "child_elems ''content'' (add_section_element
        \<lparr>sec_number = ''48-1-1'', sec_title = [], sec_text = ''No markers here.'',
         sec_history = [], sec_chapter = Some ''1'', sec_chapter_title = [],
         sec_subsections = []\<rparr>) =
       [Element (akn ''content'') [] None [Element (akn ''p'') [] (Some ''No markers here.'') []]]
   \<and> \<not> (starts_with_marker ''Intro. (a) Foo.'' \<and> marker_after_start ''Intro. (a) Foo.'')
   \<and> child_elems ''intro'' (add_section_element
          \<lparr>sec_number = ''48-1-2'', sec_title = [], sec_text = ''Intro. (a) Foo.'',
           sec_history = [], sec_chapter = Some ''1'', sec_chapter_title = [],
           sec_subsections = [Subsection ''a'' ''Foo.'' []]\<rparr>) =
       [Element (akn ''intro'') [] None [Element (akn ''p'') [] (Some ''Intro.'') []]]
   \<and> filter (\<lambda>k. tag k = akn ''intro'' \<or> tag k = akn ''subsection'')
        (subelements (add_section_element
          \<lparr>sec_number = ''48-1-2'', sec_title = [], sec_text = ''Intro. (a) Foo.'',
           sec_history = [], sec_chapter = Some ''1'', sec_chapter_title = [],
           sec_subsections = [Subsection ''a'' ''Foo.'' []]\<rparr>)) =
       [Element (akn ''intro'') [] None [Element (akn ''p'') [] (Some ''Intro.'') []],
        add_subsection_element (Subsection ''a'' ''Foo.'' []) ''48-1-2'']
   \<and> \<not> (starts_with_marker ''(a) Means this.'' \<and> marker_after_start ''(a) Means this.'')
   \<and> child_elems ''intro'' (add_section_element
          \<lparr>sec_number = ''48-1-2'', sec_title = [], sec_text = ''(a) Means this.'',
           sec_history = [], sec_chapter = Some ''1'', sec_chapter_title = [],
           sec_subsections = [Subsection ''a'' ''Means this.'' []]\<rparr>) = []
   \<and> parse_subsections ''No markers here.'' = []
   \<and> \<not> has_spaced_marker ''No markers here.''"
proof -
  let ?s1 = "\<lparr>sec_number = ''48-1-1'', sec_title = [], sec_text = ''No markers here.'',
       sec_history = [], sec_chapter = Some ''1'', sec_chapter_title = [],
       sec_subsections = []\<rparr>"
  let ?s2 = "\<lparr>sec_number = ''48-1-2'', sec_title = [], sec_text = ''Intro. (a) Foo.'',
       sec_history = [], sec_chapter = Some ''1'', sec_chapter_title = [],
       sec_subsections = [Subsection ''a'' ''Foo.'' []]\<rparr>"
  let ?s3 = "\<lparr>sec_number = ''48-1-2'', sec_title = [], sec_text = ''(a) Means this.'',
       sec_history = [], sec_chapter = Some ''1'', sec_chapter_title = [],
       sec_subsections = [Subsection ''a'' ''Means this.'' []]\<rparr>"
  have p1: "parse_subsections ''No markers here.'' = []" by code_simp
  have m2: "\<not> (starts_with_marker ''Intro. (a) Foo.'' \<and> marker_after_start ''Intro. (a) Foo.'')"
    by code_simp
  have m3: "\<not> (starts_with_marker ''(a) Means this.'' \<and> marker_after_start ''(a) Means this.'')"
    by code_simp
  have b2: "before_first_marker ''Intro. (a) Foo.'' = Some ''Intro. ''" by code_simp
  have b3: "before_first_marker ''(a) Means this.'' = Some []" by code_simp
  have st: "take 500 (strip ''Intro. '') = ''Intro.''" by code_simp
  have tk: "take 5000 ''No markers here.'' = ''No markers here.''" by code_simp
  have e1: "sec_subsections ?s1 = []" by simp
  have e2: "sec_subsections ?s2 \<noteq> []" by simp
  have e2': "sec_subsections ?s2 \<noteq> []
      \<and> \<not> (starts_with_marker (sec_text ?s2) \<and> marker_after_start (sec_text ?s2))"
    using m2 by simp
  have e3': "sec_subsections ?s3 \<noteq> []
      \<and> \<not> (starts_with_marker (sec_text ?s3) \<and> marker_after_start (sec_text ?s3))"
    using m3 by simp
  note t1 = intro_and_flat_content [of ?s1 "[]", THEN conjunct1, THEN mp, OF e1, THEN conjunct1]
  note t2 = intro_and_flat_content [of ?s2 "[]", THEN conjunct2, THEN conjunct1, THEN mp, OF e2,
      THEN conjunct2, THEN conjunct2]
  note t2' = intro_and_flat_content [of ?s2 "[]", THEN conjunct2, THEN conjunct2, THEN conjunct1,
      THEN mp, OF e2']
  note t3' = intro_and_flat_content [of ?s3 "[]", THEN conjunct2, THEN conjunct2, THEN conjunct1,
      THEN mp, OF e3']
  note t4 = intro_and_flat_content [of ?s1 "''No markers here.''", THEN conjunct2, THEN conjunct2,
      THEN conjunct2]
  have c1: "child_elems ''content'' (add_section_element ?s1) =
       [Element (akn ''content'') [] None [Element (akn ''p'') [] (Some ''No markers here.'') []]]"
    using t1 by (simp only: tk section_record.simps)
  have c2': "child_elems ''intro'' (add_section_element ?s2) =
       [Element (akn ''intro'') [] None [Element (akn ''p'') [] (Some ''Intro.'') []]]"
    using t2' by (simp only: section_record.simps b2 st option.simps list.simps if_False)
  have c2: "filter (\<lambda>k. tag k = akn ''intro'' \<or> tag k = akn ''subsection'')
        (subelements (add_section_element ?s2)) =
       [Element (akn ''intro'') [] None [Element (akn ''p'') [] (Some ''Intro.'') []],
        add_subsection_element (Subsection ''a'' ''Foo.'' []) ''48-1-2'']"
    using t2 unfolding c2' by (simp only: section_record.simps list.map append.simps)
  have c3': "child_elems ''intro'' (add_section_element ?s3) = []"
    using t3' by (simp only: section_record.simps b3 option.simps if_True simp_thms)
  have c4: "\<not> has_spaced_marker ''No markers here.''"
    using t4 p1 by (simp only: simp_thms)
  from c1 m2 c2' c2 m3 c3' p1 c4 show ?thesis by (intro conjI)
qed

subsection \<open>No markup in the normalized text\<close>

text \<open>
  The pattern \<open><[^>]+>\<close> matches at a position exactly when a tag-shaped substring
  begins there; its removal leaves none, and neither the collapse of blank lines nor
  the stripping brings one back.
\<close>

lemma m_tag_Nil [simp]: "m_tag [] = None"
  by (simp add: m_tag_def m_seq_def m_chr_def m_one_def)

lemma m_chr_iff: "(m_chr c s \<noteq> None) = (s \<noteq> [] \<and> hd s = c)"
  by (cases s) (simp_all add: m_chr_def m_one_def)

lemma run_gt: "(takeWhile (\<lambda>x. x \<noteq> CHR ''>'') cs = []) = (cs = [] \<or> hd cs = CHR ''>'')"
  by (simp add: takeWhile_eq_Nil_iff)

lemma stop_gt: "(m_chr CHR ''>'' (dropWhile (\<lambda>x. x \<noteq> CHR ''>'') cs) \<noteq> None) = (CHR ''>'' \<in> set cs)"
proof -
  let ?P = "\<lambda>x. x \<noteq> CHR ''>''"
  have "(dropWhile ?P cs \<noteq> []) = (CHR ''>'' \<in> set cs)"
    by (induction cs) simp_all
  moreover have "hd (dropWhile ?P cs) = CHR ''>''" if "dropWhile ?P cs \<noteq> []"
    using hd_dropWhile [OF that] by simp
  ultimately show ?thesis unfolding m_chr_iff by blast
qed

lemma m_tag_iff:
  "(m_tag (c # cs) \<noteq> None) = (c = CHR ''<'' \<and> cs \<noteq> [] \<and> hd cs \<noteq> CHR ''>'' \<and> CHR ''>'' \<in> set cs)"
proof (cases "c = CHR ''<''")
  case False
  then show ?thesis by (simp add: m_tag_def m_seq_def m_chr_def m_one_def)
next
  case True
  let ?P = "\<lambda>x. x \<noteq> CHR ''>''"
  have unf: "m_tag (c # cs) =
      (if takeWhile ?P cs = [] then None
       else (case m_chr CHR ''>'' (dropWhile ?P cs) of
               None \<Rightarrow> None
             | Some k \<Rightarrow> Some (1 + (length (takeWhile ?P cs) + k))))"
    using True
    by (simp add: m_tag_def m_seq_def m_one_def m_plus_def dropWhile_eq_drop m_chr_def [of "CHR ''<''"]
        split: option.splits)
  show ?thesis
  proof (cases "takeWhile ?P cs = []")
    case True
    then have "m_tag (c # cs) = None" by (simp add: unf)
    with True show ?thesis unfolding run_gt by blast
  next
    case False
    then have "(m_tag (c # cs) \<noteq> None) = (m_chr CHR ''>'' (dropWhile ?P cs) \<noteq> None)"
      by (simp add: unf split: option.splits)
    with False \<open>c = CHR ''<''\<close> show ?thesis unfolding stop_gt run_gt by blast
  qed
qed

lemma m_tag_pos: "m_tag s = Some n \<Longrightarrow> 0 < n"
  unfolding m_tag_def m_seq_Some m_chr_Some by auto

lemma has_tag_Cons: "has_tag (c # cs) = (m_tag (c # cs) \<noteq> None \<or> has_tag cs)"
  using m_tag_iff [of c cs] by simp

lemma has_tag_append_left: "has_tag s \<Longrightarrow> has_tag (pre @ s)"
  by (induction pre) auto

lemma has_tag_drop: "has_tag (drop n s) \<Longrightarrow> has_tag s"
  using has_tag_append_left [of "drop n s" "take n s"] by simp

lemma has_tag_append_right: "has_tag s \<Longrightarrow> has_tag (s @ post)"
  by (induction s) auto

lemma has_tag_shape:
  assumes "mid \<noteq> []" and "CHR ''>'' \<notin> set mid"
  shows "has_tag (pre @ CHR ''<'' # mid @ CHR ''>'' # post)"
proof -
  from assms have "hd (mid @ CHR ''>'' # post) \<noteq> CHR ''>''" by (cases mid) auto
  with assms have "has_tag (CHR ''<'' # mid @ CHR ''>'' # post)" by simp
  then show ?thesis by (rule has_tag_append_left)
qed

lemma set_re_sub:
  "(\<And>u. set (repl u) \<subseteq> A) \<Longrightarrow> set (re_sub m repl s) \<subseteq> set s \<union> A"
proof (induction s rule: length_induct)
  case (1 s)
  show ?case
  proof (cases s)
    case Nil
    then show ?thesis by simp
  next
    case (Cons c cs)
    show ?thesis
    proof (cases "m (c # cs)")
      case None
      with 1 Cons show ?thesis by auto
    next
      case (Some k)
      show ?thesis
      proof (cases k)
        case 0
        with Some 1 Cons show ?thesis by auto
      next
        case (Suc n)
        have "set (re_sub m repl (drop n cs)) \<subseteq> set (drop n cs) \<union> A"
          using 1 Cons by simp
        moreover have "set (drop n cs) \<subseteq> set cs" by (rule set_drop_subset)
        ultimately show ?thesis using Some Suc Cons 1(2) by auto
      qed
    qed
  qed
qed

lemma re_sub_keeps_head:
  "m (c # cs) = None \<Longrightarrow> re_sub m repl (c # cs) = c # re_sub m repl cs"
  by simp

lemma tag_removal_leaves_none: "\<not> has_tag (re_sub m_tag (\<lambda>_. []) t)"
proof (induction t rule: length_induct)
  case (1 t)
  let ?R = "re_sub m_tag (\<lambda>_. [])"
  show ?case
  proof (cases t)
    case Nil
    then show ?thesis by simp
  next
    case (Cons c cs)
    show ?thesis
    proof (cases "m_tag (c # cs)")
      case None
      have ih: "\<not> has_tag (?R cs)" using 1 Cons by simp
      have "m_tag (c # ?R cs) = None"
      proof (rule ccontr)
        assume "m_tag (c # ?R cs) \<noteq> None"
        then have c: "c = CHR ''<''" and ne: "?R cs \<noteq> []" and hd: "hd (?R cs) \<noteq> CHR ''>''"
          and gt: "CHR ''>'' \<in> set (?R cs)"
          unfolding m_tag_iff by auto
        from gt set_re_sub [of "\<lambda>_. []" "{}" m_tag cs] have gt': "CHR ''>'' \<in> set cs" by auto
        then obtain x xs where cs: "cs = x # xs" by (cases cs) auto
        have "x \<noteq> CHR ''>''"
        proof
          assume "x = CHR ''>''"
          then have "m_tag (x # xs) = None" using m_tag_iff [of x xs] by auto
          then have "?R cs = x # ?R xs" unfolding cs by simp
          with hd \<open>x = CHR ''>''\<close> show False by simp
        qed
        with c gt' cs have "m_tag (c # cs) \<noteq> None" unfolding m_tag_iff by simp
        with None show False by simp
      qed
      with ih None Cons show ?thesis by (simp add: has_tag_Cons del: has_tag.simps)
    next
      case (Some k)
      with m_tag_pos obtain n where k: "k = Suc n" by (cases k) auto
      have "\<not> has_tag (?R (drop n cs))" using 1 Cons by simp
      with Some k Cons show ?thesis by simp
    qed
  qed
qed

lemma m_blank_lines_LF: "m_blank_lines (c # cs) \<noteq> None \<Longrightarrow> c = LF"
  by (simp add: m_blank_lines_def split: if_splits)

lemma m_blank_lines_other: "c \<noteq> LF \<Longrightarrow> m_blank_lines (c # cs) = None"
  by (simp add: m_blank_lines_def)

lemma LF_not_angle [simp]:
  "LF \<noteq> CHR ''<''" "LF \<noteq> CHR ''>''" "CHR ''<'' \<noteq> LF" "CHR ''>'' \<noteq> LF"
  by (simp_all add: LF_def)

lemma blank_lines_make_no_tag:
  "has_tag (re_sub m_blank_lines (\<lambda>_. [LF, LF]) t) \<Longrightarrow> has_tag t"
proof (induction t rule: length_induct)
  case (1 t)
  let ?G = "re_sub m_blank_lines (\<lambda>_. [LF, LF])"
  show ?case
  proof (cases t)
    case Nil
    with 1 show ?thesis by simp
  next
    case (Cons c cs)
    have keep: "has_tag (c # cs)" if g: "?G t = c # ?G cs"
    proof -
      from 1(2) g have "m_tag (c # ?G cs) \<noteq> None \<or> has_tag (?G cs)"
        by (simp add: has_tag_Cons del: has_tag.simps)
      then show ?thesis
      proof
        assume "has_tag (?G cs)"
        with 1(1) Cons have "has_tag cs" by simp
        then show ?thesis by simp
      next
        assume "m_tag (c # ?G cs) \<noteq> None"
        then have c: "c = CHR ''<''" and hd: "hd (?G cs) \<noteq> CHR ''>''"
          and gt: "CHR ''>'' \<in> set (?G cs)"
          unfolding m_tag_iff by auto
        from gt set_re_sub [of "\<lambda>_. [LF, LF]" "{LF}" m_blank_lines cs] have gt': "CHR ''>'' \<in> set cs"
          by auto
        then obtain x xs where cs: "cs = x # xs" by (cases cs) auto
        have "x \<noteq> CHR ''>''"
        proof
          assume x: "x = CHR ''>''"
          then have "m_blank_lines (x # xs) = None" by (simp add: m_blank_lines_other)
          then have "?G cs = x # ?G xs" unfolding cs by simp
          with hd x show False by simp
        qed
        with c gt' cs show ?thesis by simp
      qed
    qed
    show ?thesis
    proof (cases "m_blank_lines (c # cs)")
      case None
      then have "?G t = c # ?G cs" unfolding Cons by simp
      from keep [OF this] Cons show ?thesis by simp
    next
      case (Some k)
      show ?thesis
      proof (cases k)
        case 0
        with Some have "?G t = c # ?G cs" unfolding Cons by simp
        from keep [OF this] Cons show ?thesis by simp
      next
        case (Suc n)
        with Some have "?G t = LF # LF # ?G (drop n cs)" unfolding Cons by simp
        with 1(2) have "has_tag (?G (drop n cs))" by simp
        with 1(1) Cons have "has_tag (drop n cs)" by simp
        then have "has_tag cs" by (rule has_tag_drop)
        with Cons show ?thesis by simp
      qed
    qed
  qed
qed

lemma rstrip_prefix: "s = rstrip s @ rev (takeWhile is_space (rev s))"
proof -
  have "rev s = takeWhile is_space (rev s) @ dropWhile is_space (rev s)" by simp
  then have "rev (rev s) = rev (takeWhile is_space (rev s) @ dropWhile is_space (rev s))" by simp
  then show ?thesis unfolding rstrip_def by (simp only: rev_rev_ident rev_append)
qed

lemma has_tag_strip: "has_tag (strip s) \<Longrightarrow> has_tag s"
proof -
  assume "has_tag (strip s)"
  then have "has_tag (rstrip (lstrip s) @ rev (takeWhile is_space (rev (lstrip s))))"
    unfolding strip_def by (rule has_tag_append_right)
  then have "has_tag (lstrip s)" using rstrip_prefix [of "lstrip s"] by simp
  then have "has_tag (drop (length (takeWhile is_space s)) s)"
    by (simp add: lstrip_def dropWhile_eq_drop)
  then show ?thesis by (rule has_tag_drop)
qed

lemma clean_has_no_tag: "\<not> has_tag (clean_html_content unescape x)"
  unfolding clean_html_content_def Let_def
  using tag_removal_leaves_none blank_lines_make_no_tag has_tag_strip by blast

text \<open>
  C9. For every input string (so also for every HTML-escaped input that contains only
  the whitelisted inline tags, entity-encoded or not) and for every entity decoder, the
  output of \<open>clean_html_content\<close> contains no substring of the form \<open><...>\<close>: an opening
  angle bracket, one or more characters other than the closing angle bracket, then a
  closing angle bracket. At an input with an entity-encoded paragraph tag and the
  line break, bold and font tags in both cases, the output is the plain text.
\<close>

theorem normalizer_leaves_no_tag:
  "\<not> (\<exists>pre mid post. clean_html_content unescape x = pre @ ''<'' @ mid @ ''>'' @ post
        \<and> mid \<noteq> [] \<and> CHR ''>'' \<notin> set mid)
   \<and> clean_html_content html_unescape
        ''&lt;P&gt;Intro.<BR />  <br>  (a) <b>Bold</B> <font size=3>text</FONT>.</p>''
      = ''Intro.'' @ [LF, LF] @ ''  (a) Bold text.''"
proof
  show "\<not> (\<exists>pre mid post. clean_html_content unescape x = pre @ ''<'' @ mid @ ''>'' @ post
        \<and> mid \<noteq> [] \<and> CHR ''>'' \<notin> set mid)"
  proof
    assume "\<exists>pre mid post. clean_html_content unescape x = pre @ ''<'' @ mid @ ''>'' @ post
          \<and> mid \<noteq> [] \<and> CHR ''>'' \<notin> set mid"
    then obtain pre mid post where
      "clean_html_content unescape x = pre @ CHR ''<'' # mid @ CHR ''>'' # post"
      "mid \<noteq> []" "CHR ''>'' \<notin> set mid" by auto
    with has_tag_shape [of mid pre post] clean_has_no_tag [of unescape x] show False by simp
  qed
  show "clean_html_content html_unescape
          ''&lt;P&gt;Intro.<BR />  <br>  (a) <b>Bold</B> <font size=3>text</FONT>.</p>''
        = ''Intro.'' @ [LF, LF] @ ''  (a) Bold text.''"
    by code_simp
qed

subsection \<open>A second pass of the normalizer\<close>

text \<open>
  A text without a tag-shaped substring has no match of any of the seven tag patterns:
  each of the six patterns for the known tags matches only where \<open><[^>]+>\<close> matches.
\<close>

lemma re_sub_id: "(\<And>j. j < length s \<Longrightarrow> m (drop j s) = None) \<Longrightarrow> re_sub m repl s = s"
proof (induction s)
  case Nil
  show ?case by simp
next
  case (Cons c cs)
  from Cons.prems [of 0] have "m (c # cs) = None" by simp
  moreover have "re_sub m repl cs = cs"
  proof (rule Cons.IH)
    fix j assume "j < length cs"
    with Cons.prems [of "Suc j"] show "m (drop j cs) = None" by simp
  qed
  ultimately show ?case by simp
qed

lemma no_tag_nowhere:
  assumes "\<not> has_tag s" and "j < length s"
  shows "m_tag (drop j s) = None"
proof -
  from assms(2) obtain x xs where d: "drop j s = x # xs" by (cases "drop j s") auto
  from assms(1) have "\<not> has_tag (drop j s)" using has_tag_drop by blast
  then show ?thesis unfolding d has_tag_Cons by simp
qed

lemma lower_lt: "lower a = CHR ''<'' \<Longrightarrow> a = CHR ''<''"
  by (auto simp: lower_def ord_def char_of_eq_iff take_bit_eq_mod split: if_splits)

lemma lower_gt: "lower a = CHR ''>'' \<Longrightarrow> a = CHR ''>''"
  by (auto simp: lower_def ord_def char_of_eq_iff take_bit_eq_mod split: if_splits)

lemma lower_gt_id: "lower CHR ''>'' = CHR ''>''"
  by (simp add: lower_def ord_def)

lemma m_tag_shape: "x \<noteq> CHR ''>'' \<Longrightarrow> CHR ''>'' \<in> set r \<Longrightarrow> m_tag (CHR ''<'' # x # r) \<noteq> None"
  unfolding m_tag_iff by simp

text \<open>A literal that begins like a tag, followed by something that holds a \<open>>\<close>.\<close>

lemma lit_ci_prefix:
  assumes "m_lit_ci (CHR ''<'' # x # rest) u = Some n" and "x \<noteq> CHR ''>''"
  shows "\<exists>b r. u = CHR ''<'' # b # r \<and> b \<noteq> CHR ''>'' \<and> n = Suc (Suc (length rest))
           \<and> map lower (take (length rest) r) = rest"
proof -
  from assms(1) have len: "Suc (Suc (length rest)) \<le> length u"
    and eq: "map lower (take (Suc (Suc (length rest))) u) = CHR ''<'' # x # rest"
    and n: "n = Suc (Suc (length rest))"
    by (simp_all add: m_lit_ci_def split: if_splits)
  from len obtain a b r where u: "u = a # b # r"
    by (cases u; cases "tl u") auto
  from eq u have a: "lower a = CHR ''<''" and b: "lower b = x" and r: "map lower (take (length rest) r) = rest"
    by simp_all
  from a have "a = CHR ''<''" by (rule lower_lt)
  moreover have "b \<noteq> CHR ''>''"
  proof
    assume "b = CHR ''>''"
    with b lower_gt_id assms(2) show False by simp
  qed
  ultimately show ?thesis using u n r by blast
qed

lemma lit_ci_is_tag:
  assumes "m_lit_ci (CHR ''<'' # x # rest) u = Some n" and "x \<noteq> CHR ''>''" and "CHR ''>'' \<in> set rest"
  shows "m_tag u \<noteq> None"
proof -
  from lit_ci_prefix [OF assms(1,2)] obtain b r where
    u: "u = CHR ''<'' # b # r" and b: "b \<noteq> CHR ''>''" and r: "map lower (take (length rest) r) = rest"
    by blast
  from assms(3) r obtain c where "c \<in> set (take (length rest) r)" and "lower c = CHR ''>''"
    by (metis (no_types, lifting) imageE set_map)
  then have "CHR ''>'' \<in> set (take (length rest) r)" using lower_gt by blast
  then have "CHR ''>'' \<in> set r" by (rule in_set_takeD)
  with b show ?thesis unfolding u by (rule m_tag_shape)
qed

lemma lit_ci_then_gt_is_tag:
  assumes "m_seq (m_lit_ci (CHR ''<'' # x # rest)) m2 u = Some n" and "x \<noteq> CHR ''>''"
    and gt: "\<And>w j. m2 w = Some j \<Longrightarrow> CHR ''>'' \<in> set w"
  shows "m_tag u \<noteq> None"
proof -
  from assms(1) obtain a b where l: "m_lit_ci (CHR ''<'' # x # rest) u = Some a"
    and m: "m2 (drop a u) = Some b"
    unfolding m_seq_Some by blast
  from lit_ci_prefix [OF l assms(2)] obtain c r where
    u: "u = CHR ''<'' # c # r" and c: "c \<noteq> CHR ''>''" and a: "a = Suc (Suc (length rest))"
    by blast
  from gt [OF m] have "CHR ''>'' \<in> set (drop a u)" .
  then have "CHR ''>'' \<in> set (drop (length rest) r)" unfolding u a by simp
  then have "CHR ''>'' \<in> set r" by (rule in_set_dropD)
  with c show ?thesis unfolding u by (rule m_tag_shape)
qed

lemma seq_holds_gt:
  assumes "m_seq m1 m2 v = Some k" and "\<And>w j. m2 w = Some j \<Longrightarrow> CHR ''>'' \<in> set w"
  shows "CHR ''>'' \<in> set v"
proof -
  from assms(1) obtain a b where "m2 (drop a v) = Some b" unfolding m_seq_Some by blast
  from assms(2) [OF this] show ?thesis by (rule in_set_dropD)
qed

lemma chr_holds_gt: "m_chr CHR ''>'' w = Some j \<Longrightarrow> CHR ''>'' \<in> set w"
  unfolding m_chr_Some by auto

lemma m_alt_None: "(m_alt m1 m2 s = None) = (m1 s = None \<and> m2 s = None)"
  by (simp add: m_alt_def split: option.splits)

lemma m_br_is_tag: "m_tag u = None \<Longrightarrow> m_br u = None"
proof (rule ccontr)
  assume t: "m_tag u = None" and "m_br u \<noteq> None"
  then obtain n where n: "m_br u = Some n" by auto
  have "m_tag u \<noteq> None"
  proof (rule lit_ci_then_gt_is_tag)
    show "m_seq (m_lit_ci (CHR ''<'' # CHR ''b'' # ''r''))
            (m_seq (m_star is_space) (m_seq (m_opt (m_chr CHR ''/'')) (m_chr CHR ''>''))) u = Some n"
      using n unfolding m_br_def by simp
    show "CHR ''b'' \<noteq> CHR ''>''" by simp
    fix w j
    assume "m_seq (m_star is_space) (m_seq (m_opt (m_chr CHR ''/'')) (m_chr CHR ''>'')) w = Some j"
    then show "CHR ''>'' \<in> set w"
      by (rule seq_holds_gt) (erule seq_holds_gt, erule chr_holds_gt)
  qed
  with t show False by simp
qed

lemma m_p_open_is_tag: "m_tag u = None \<Longrightarrow> m_p_open u = None"
  using lit_ci_is_tag [of "CHR ''p''" "''>''" u] unfolding m_p_open_def by fastforce

lemma m_p_close_is_tag: "m_tag u = None \<Longrightarrow> m_p_close u = None"
  using lit_ci_is_tag [of "CHR ''/''" "''p>''" u] unfolding m_p_close_def by fastforce

lemma m_strong_is_tag: "m_tag u = None \<Longrightarrow> m_strong u = None"
  using lit_ci_is_tag [of "CHR ''s''" "''trong>''" u] lit_ci_is_tag [of "CHR ''/''" "''strong>''" u]
  unfolding m_strong_def m_alt_None by fastforce

lemma m_b_is_tag: "m_tag u = None \<Longrightarrow> m_b u = None"
  using lit_ci_is_tag [of "CHR ''b''" "''>''" u] lit_ci_is_tag [of "CHR ''/''" "''b>''" u]
  unfolding m_b_def m_alt_None by fastforce

lemma m_font_is_tag: "m_tag u = None \<Longrightarrow> m_font u = None"
proof (rule ccontr)
  assume t: "m_tag u = None" and f: "m_font u \<noteq> None"
  let ?open = "m_seq (m_lit_ci ''<font'') (m_seq (m_star (\<lambda>c. c \<noteq> CHR ''>'')) (m_chr CHR ''>''))"
  from f have "?open u \<noteq> None \<or> m_lit_ci ''</font>'' u \<noteq> None"
    unfolding m_font_def m_alt_None by simp
  then show False
  proof
    assume "?open u \<noteq> None"
    then obtain n where n: "?open u = Some n" by auto
    have "m_tag u \<noteq> None"
    proof (rule lit_ci_then_gt_is_tag)
      show "m_seq (m_lit_ci (CHR ''<'' # CHR ''f'' # ''ont''))
              (m_seq (m_star (\<lambda>c. c \<noteq> CHR ''>'')) (m_chr CHR ''>'')) u = Some n"
        using n by simp
      show "CHR ''f'' \<noteq> CHR ''>''" by simp
      fix w j
      assume "m_seq (m_star (\<lambda>c. c \<noteq> CHR ''>'')) (m_chr CHR ''>'') w = Some j"
      then show "CHR ''>'' \<in> set w" by (rule seq_holds_gt) (erule chr_holds_gt)
    qed
    with t show False by simp
  next
    assume "m_lit_ci ''</font>'' u \<noteq> None"
    then obtain n where "m_lit_ci (CHR ''<'' # CHR ''/'' # ''font>'') u = Some n" by auto
    from lit_ci_is_tag [OF this] t show False by simp
  qed
qed

lemma no_tag_sub_id:
  assumes "\<not> has_tag s" and "\<And>u. m_tag u = None \<Longrightarrow> m u = None"
  shows "re_sub m repl s = s"
proof (rule re_sub_id)
  fix j assume "j < length s"
  with assms(1) have "m_tag (drop j s) = None" by (rule no_tag_nowhere)
  then show "m (drop j s) = None" by (rule assms(2))
qed

lemma tag_free_unchanged:
  assumes "\<not> has_tag s"
  shows "re_sub m_tag (\<lambda>_. [])
           (re_sub m_font (\<lambda>_. [])
             (re_sub m_b (\<lambda>_. [])
               (re_sub m_strong (\<lambda>_. [])
                 (re_sub m_p_close (\<lambda>_. [])
                   (re_sub m_p_open (\<lambda>_. [LF])
                     (re_sub m_br (\<lambda>_. [LF]) s)))))) = s"
  using assms
  by (simp add: no_tag_sub_id m_br_is_tag m_p_open_is_tag m_p_close_is_tag m_strong_is_tag
      m_b_is_tag m_font_is_tag)

text \<open>
  The collapse of blank lines leaves the blank lines in normal form, the stripping
  keeps them so, and a text in normal form is unchanged by the collapse.
\<close>

lemma is_space_LF [simp]: "is_space LF"
  by (simp add: is_space_def LF_def ord_def)

lemma m_blank_lines_None_iff:
  "(m_blank_lines (c # cs) = None) = (c \<noteq> LF \<or> LF \<notin> set (takeWhile is_space cs))"
  by (auto simp: m_blank_lines_def Let_def dropWhile_eq_Nil_conv)

lemma takeWhile_drop_within:
  assumes "n \<le> length (takeWhile P xs)"
  shows "takeWhile P (drop n xs) = drop n (takeWhile P xs)"
proof -
  have "drop n xs = drop n (takeWhile P xs @ dropWhile P xs)" by simp
  also have "\<dots> = drop n (takeWhile P xs) @ dropWhile P xs"
    using assms by (simp del: takeWhile_dropWhile_id)
  finally have "takeWhile P (drop n xs) = takeWhile P (drop n (takeWhile P xs) @ dropWhile P xs)"
    by simp
  also have "\<dots> = drop n (takeWhile P xs) @ takeWhile P (dropWhile P xs)"
    by (rule takeWhile_append2) (auto dest: in_set_dropD set_takeWhileD)
  also have "takeWhile P (dropWhile P xs) = []"
  proof (cases "dropWhile P xs = []")
    case True
    show ?thesis unfolding True by simp
  next
    case False
    from hd_dropWhile [OF False] False show ?thesis by (cases "dropWhile P xs") auto
  qed
  finally show ?thesis by simp
qed

lemma m_blank_lines_SomeD:
  assumes "m_blank_lines (c # cs) = Some k"
  shows "c = LF \<and> (\<exists>n. k = Suc n \<and> 0 < n \<and> n \<le> length (takeWhile is_space cs)
           \<and> LF \<notin> set (drop n (takeWhile is_space cs))
           \<and> takeWhile is_space cs ! (n - 1) = LF)"
proof -
  let ?W = "takeWhile is_space cs"
  let ?P = "\<lambda>x. x \<noteq> LF"
  let ?A = "takeWhile ?P (rev ?W)"
  let ?B = "dropWhile ?P (rev ?W)"
  from assms have c: "c = LF" and pos: "length ?B \<noteq> 0" and k: "k = Suc (length ?B)"
    by (simp_all add: m_blank_lines_def Let_def split: if_splits)
  have "rev ?W = ?A @ ?B" by simp
  then have "rev (rev ?W) = rev (?A @ ?B)" by (rule arg_cong)
  then have W: "?W = rev ?B @ rev ?A" by (simp only: rev_rev_ident rev_append)
  from pos have B: "?B \<noteq> []" by simp
  have len: "length ?B \<le> length ?W" using arg_cong [OF W, of length] by simp
  have "drop (length ?B) ?W = drop (length (rev ?B)) (rev ?B @ rev ?A)" using W by simp
  then have d: "drop (length ?B) ?W = rev ?A" by simp
  have "LF \<notin> set (rev ?A)" by (auto dest: set_takeWhileD)
  with d have nolf: "LF \<notin> set (drop (length ?B) ?W)" by simp
  have "?W ! (length ?B - 1) = (rev ?B @ rev ?A) ! (length (rev ?B) - 1)" using W by simp
  also have "\<dots> = rev ?B ! (length (rev ?B) - 1)" using B by (simp add: nth_append)
  also have "\<dots> = last (rev ?B)" using B by (simp add: last_conv_nth)
  also have "\<dots> = hd ?B" using B by (simp add: last_rev)
  also have "hd ?B = LF" using hd_dropWhile [OF B] by simp
  finally have "?W ! (length ?B - 1) = LF" .
  with c k pos len nolf show ?thesis by simp
qed

lemma takeWhile_space_sub:
  "LF \<notin> set (takeWhile is_space s) \<Longrightarrow>
   takeWhile is_space (re_sub m_blank_lines (\<lambda>_. [LF, LF]) s) = takeWhile is_space s"
proof (induction s)
  case Nil
  show ?case by simp
next
  case (Cons c cs)
  have c: "c \<noteq> LF"
  proof
    assume "c = LF"
    with Cons.prems show False by simp
  qed
  then have g: "re_sub m_blank_lines (\<lambda>_. [LF, LF]) (c # cs) = c # re_sub m_blank_lines (\<lambda>_. [LF, LF]) cs"
    by (simp add: m_blank_lines_other)
  show ?case
  proof (cases "is_space c")
    case True
    with Cons.prems have "LF \<notin> set (takeWhile is_space cs)" by simp
    from Cons.IH [OF this] True show ?thesis unfolding g by simp
  next
    case False
    then show ?thesis unfolding g by simp
  qed
qed

lemma two_newlines: "LF \<notin> set W \<Longrightarrow> length (dropWhile (\<lambda>x. x \<noteq> LF) (rev (LF # W))) = 1"
proof -
  assume "LF \<notin> set W"
  then have "dropWhile (\<lambda>x. x \<noteq> LF) (rev W @ [LF]) = dropWhile (\<lambda>x. x \<noteq> LF) [LF]"
    by (intro dropWhile_append2) auto
  then show ?thesis by simp
qed

lemma blank_ok_sub: "blank_ok (re_sub m_blank_lines (\<lambda>_. [LF, LF]) t)"
proof (induction t rule: length_induct)
  case (1 t)
  let ?G = "re_sub m_blank_lines (\<lambda>_. [LF, LF])"
  show ?case
  proof (cases t)
    case Nil
    then show ?thesis by simp
  next
    case (Cons c cs)
    show ?thesis
    proof (cases "m_blank_lines (c # cs)")
      case None
      then have g: "?G t = c # ?G cs" unfolding Cons by simp
      have ih: "blank_ok (?G cs)" using 1 Cons by simp
      from None have "c \<noteq> LF \<or> LF \<notin> set (takeWhile is_space cs)"
        unfolding m_blank_lines_None_iff .
      then have "c \<noteq> LF \<or> LF \<notin> set (takeWhile is_space (?G cs))"
        using takeWhile_space_sub [of cs] by auto
      then have "m_blank_lines (c # ?G cs) = None" unfolding m_blank_lines_None_iff .
      with ih show ?thesis unfolding g by simp
    next
      case (Some k)
      from m_blank_lines_SomeD [OF Some] obtain n where c: "c = LF" and k: "k = Suc n"
        and len: "n \<le> length (takeWhile is_space cs)"
        and nolf: "LF \<notin> set (drop n (takeWhile is_space cs))"
        by blast
      from Some k have g: "?G t = LF # LF # ?G (drop n cs)" unfolding Cons by simp
      have ih: "blank_ok (?G (drop n cs))" using 1 Cons by simp
      from nolf have nolf': "LF \<notin> set (takeWhile is_space (drop n cs))"
        unfolding takeWhile_drop_within [OF len] .
      from takeWhile_space_sub [OF this] nolf'
      have w: "LF \<notin> set (takeWhile is_space (?G (drop n cs)))" by simp
      then have second: "m_blank_lines (LF # ?G (drop n cs)) = None"
        unfolding m_blank_lines_None_iff by simp
      have first: "m_blank_lines (LF # LF # ?G (drop n cs)) = Some 2"
        using two_newlines [OF w] by (simp add: m_blank_lines_def)
      from first second ih show ?thesis unfolding g by simp
    qed
  qed
qed

lemma blank_ok_tl: "blank_ok s \<Longrightarrow> blank_ok (tl s)"
  by (cases s) simp_all

lemma blank_ok_drop: "blank_ok s \<Longrightarrow> blank_ok (drop n s)"
proof (induction n arbitrary: s)
  case 0
  then show ?case by simp
next
  case (Suc n)
  from Suc.prems have "blank_ok (tl s)" by (rule blank_ok_tl)
  from Suc.IH [OF this] show ?case by (simp add: drop_Suc)
qed

lemma blank_ok_sub_id: "blank_ok s \<Longrightarrow> re_sub m_blank_lines (\<lambda>_. [LF, LF]) s = s"
proof (induction s rule: length_induct)
  case (1 s)
  let ?G = "re_sub m_blank_lines (\<lambda>_. [LF, LF])"
  show ?case
  proof (cases s)
    case Nil
    then show ?thesis by simp
  next
    case (Cons c cs)
    from 1(2) Cons have cs: "blank_ok cs" by simp
    show ?thesis
    proof (cases "m_blank_lines (c # cs)")
      case None
      then have "?G s = c # ?G cs" unfolding Cons by simp
      moreover have "?G cs = cs" using 1(1) Cons cs by simp
      ultimately show ?thesis using Cons by simp
    next
      case (Some k)
      with 1(2) Cons have k: "k = 2" by simp
      from m_blank_lines_SomeD [OF Some] k have c: "c = LF"
        and len: "1 \<le> length (takeWhile is_space cs)"
        and at: "takeWhile is_space cs ! 0 = LF"
        by auto
      from len obtain x xs where cs': "cs = x # xs" by (cases cs) auto
      from len at cs' have x: "x = LF" by (simp split: if_splits)
      from Some k have "?G s = LF # LF # ?G (drop 1 cs)" unfolding Cons by (simp add: numeral_2_eq_2)
      moreover have "?G xs = xs"
      proof -
        from cs cs' have "blank_ok xs" by simp
        with 1(1) Cons cs' show ?thesis by simp
      qed
      ultimately show ?thesis using Cons cs' c x by simp
    qed
  qed
qed

lemma m_blank_lines_append:
  assumes "r \<noteq> []" and "\<not> is_space (last r)"
  shows "m_blank_lines (x # r @ w) = m_blank_lines (x # r)"
proof -
  from assms(1) have "last r \<in> set r" by simp
  from takeWhile_append1 [OF this, of is_space w] assms(2)
  have "takeWhile is_space (r @ w) = takeWhile is_space r" by simp
  then show ?thesis by (simp add: m_blank_lines_def)
qed

lemma blank_ok_prefix:
  "blank_ok (r @ w) \<Longrightarrow> r = [] \<or> \<not> is_space (last r) \<Longrightarrow> blank_ok r"
proof (induction r)
  case Nil
  show ?case by simp
next
  case (Cons x r)
  show ?case
  proof (cases "r = []")
    case True
    with Cons.prems(2) have "\<not> is_space x" by simp
    then have "x \<noteq> LF" by auto
    then show ?thesis using True by (simp add: m_blank_lines_other)
  next
    case False
    with Cons.prems(2) have l: "\<not> is_space (last r)" by simp
    from Cons.prems(1) have "blank_ok (r @ w)" by simp
    with l have r: "blank_ok r" by (intro Cons.IH) simp_all
    from Cons.prems(1) m_blank_lines_append [OF False l, of x w] r show ?thesis by simp
  qed
qed

lemma rstrip_last: "rstrip u = [] \<or> \<not> is_space (last (rstrip u))"
proof (cases "dropWhile is_space (rev u) = []")
  case True
  then show ?thesis by (simp add: rstrip_def)
next
  case False
  from hd_dropWhile [OF False] False show ?thesis by (simp add: rstrip_def last_rev)
qed

lemma blank_ok_strip: "blank_ok s \<Longrightarrow> blank_ok (strip s)"
proof -
  assume "blank_ok s"
  then have "blank_ok (drop (length (takeWhile is_space s)) s)" by (rule blank_ok_drop)
  then have "blank_ok (lstrip s)" by (simp add: lstrip_def dropWhile_eq_drop)
  then have "blank_ok (rstrip (lstrip s) @ rev (takeWhile is_space (rev (lstrip s))))"
    using rstrip_prefix [of "lstrip s"] by simp
  then show ?thesis unfolding strip_def using rstrip_last by (rule blank_ok_prefix)
qed

lemma lstrip_id: "s = [] \<or> \<not> is_space (hd s) \<Longrightarrow> lstrip s = s"
  by (cases s) (auto simp: lstrip_def)

lemma rstrip_id: "s = [] \<or> \<not> is_space (last s) \<Longrightarrow> rstrip s = s"
proof (cases "s = []")
  case True
  then show ?thesis by (simp add: rstrip_def)
next
  case False
  assume "s = [] \<or> \<not> is_space (last s)"
  with False have "\<not> is_space (hd (rev s))" by (simp add: hd_rev)
  with False have "dropWhile is_space (rev s) = rev s" by (cases "rev s") auto
  then show ?thesis by (simp add: rstrip_def)
qed

lemma strip_strip: "strip (strip z) = strip z"
proof -
  let ?u = "lstrip z"
  let ?y = "rstrip ?u"
  have u: "?u = [] \<or> \<not> is_space (hd ?u)"
    unfolding lstrip_def using hd_dropWhile [of is_space z] by blast
  have "?y = [] \<or> \<not> is_space (hd ?y)"
  proof (cases "?y = []")
    case True
    then show ?thesis by simp
  next
    case False
    have "hd ?u = hd (?y @ rev (takeWhile is_space (rev ?u)))" using rstrip_prefix [of ?u] by simp
    also have "\<dots> = hd ?y" using False by simp
    finally have "hd ?y = hd ?u" by simp
    moreover from False have "?u \<noteq> []" by (auto simp: rstrip_def)
    ultimately show ?thesis using u by simp
  qed
  then have "lstrip ?y = ?y" by (rule lstrip_id)
  moreover have "rstrip ?y = ?y" using rstrip_last by (rule rstrip_id)
  ultimately show ?thesis by (simp add: strip_def)
qed

lemma clean_html_content_unfold:
  "clean_html_content unescape x =
     strip (re_sub m_blank_lines (\<lambda>_. [LF, LF])
       (re_sub m_tag (\<lambda>_. [])
         (re_sub m_font (\<lambda>_. [])
           (re_sub m_b (\<lambda>_. [])
             (re_sub m_strong (\<lambda>_. [])
               (re_sub m_p_close (\<lambda>_. [])
                 (re_sub m_p_open (\<lambda>_. [LF])
                   (re_sub m_br (\<lambda>_. [LF]) (unescape x)))))))))"
  by (simp add: clean_html_content_def Let_def)

lemma clean_blank_ok: "blank_ok (clean_html_content unescape x)"
  unfolding clean_html_content_unfold by (rule blank_ok_strip) (rule blank_ok_sub)

lemma clean_fixed:
  assumes "unescape y = y" and "\<not> has_tag y" and "blank_ok y" and "strip y = y"
  shows "clean_html_content unescape y = y"
  unfolding clean_html_content_unfold assms(1) tag_free_unchanged [OF assms(2)]
    blank_ok_sub_id [OF assms(3)] by (rule assms(4))

text \<open>
  No step after the decoder makes the text longer. So where the decoder makes the
  normalized text shorter (as \<open>html.unescape\<close> does whenever it replaces a reference:
  every reference is longer than what it stands for), the second pass gives another
  text.
\<close>

lemma length_re_sub:
  assumes "\<And>c cs n. m (c # cs) = Some (Suc n) \<Longrightarrow> length (repl (c # take n cs)) \<le> Suc (min n (length cs))"
  shows "length (re_sub m repl s) \<le> length s"
proof (induction s rule: length_induct)
  case (1 s)
  show ?case
  proof (cases s)
    case Nil
    then show ?thesis by simp
  next
    case (Cons c cs)
    have ih: "length (re_sub m repl cs) \<le> length cs" using 1 Cons by simp
    show ?thesis
    proof (cases "m (c # cs)")
      case None
      with ih Cons show ?thesis by simp
    next
      case (Some k)
      show ?thesis
      proof (cases k)
        case 0
        with Some ih Cons show ?thesis by simp
      next
        case (Suc n)
        have "length (drop n cs) < length s" using Cons by simp
        with 1 have "length (re_sub m repl (drop n cs)) \<le> length (drop n cs)" by blast
        moreover from Some Suc have "length (repl (c # take n cs)) \<le> Suc (min n (length cs))"
          using assms by simp
        ultimately have "length (repl (c # take n cs) @ re_sub m repl (drop n cs)) \<le> Suc (length cs)"
          by simp
        with Some Suc Cons show ?thesis by simp
      qed
    qed
  qed
qed

lemma length_sub_delete: "length (re_sub m (\<lambda>_. []) s) \<le> length s"
  by (rule length_re_sub) simp

lemma length_sub_newline: "length (re_sub m (\<lambda>_. [LF]) s) \<le> length s"
  by (rule length_re_sub) simp

lemma length_sub_blank_lines: "length (re_sub m_blank_lines (\<lambda>_. [LF, LF]) s) \<le> length s"
proof (rule length_re_sub)
  fix c cs n
  assume "m_blank_lines (c # cs) = Some (Suc n)"
  from m_blank_lines_SomeD [OF this] have "0 < n" and "n \<le> length (takeWhile is_space cs)"
    by simp_all
  moreover have "length (takeWhile is_space cs) \<le> length cs" by (rule length_takeWhile_le)
  ultimately show "length [LF, LF] \<le> Suc (min n (length cs))" by simp
qed

lemma length_strip: "length (strip s) \<le> length s"
proof -
  have "length (strip s) \<le> length (lstrip s)"
    unfolding strip_def rstrip_def using length_dropWhile_le [of is_space "rev (lstrip s)"] by simp
  also have "\<dots> \<le> length s" unfolding lstrip_def by (rule length_dropWhile_le)
  finally show ?thesis .
qed

lemma length_clean: "length (clean_html_content unescape x) \<le> length (unescape x)"
proof -
  let ?t1 = "re_sub m_br (\<lambda>_. [LF]) (unescape x)"
  let ?t2 = "re_sub m_p_open (\<lambda>_. [LF]) ?t1"
  let ?t3 = "re_sub m_p_close (\<lambda>_. []) ?t2"
  let ?t4 = "re_sub m_strong (\<lambda>_. []) ?t3"
  let ?t5 = "re_sub m_b (\<lambda>_. []) ?t4"
  let ?t6 = "re_sub m_font (\<lambda>_. []) ?t5"
  let ?t7 = "re_sub m_tag (\<lambda>_. []) ?t6"
  let ?t8 = "re_sub m_blank_lines (\<lambda>_. [LF, LF]) ?t7"
  have "length (strip ?t8) \<le> length ?t8" by (rule length_strip)
  also have "\<dots> \<le> length ?t7" by (rule length_sub_blank_lines)
  also have "\<dots> \<le> length ?t6" by (rule length_sub_delete)
  also have "\<dots> \<le> length ?t5" by (rule length_sub_delete)
  also have "\<dots> \<le> length ?t4" by (rule length_sub_delete)
  also have "\<dots> \<le> length ?t3" by (rule length_sub_delete)
  also have "\<dots> \<le> length ?t2" by (rule length_sub_delete)
  also have "\<dots> \<le> length ?t1" by (rule length_sub_newline)
  also have "\<dots> \<le> length (unescape x)" by (rule length_sub_newline)
  finally show ?thesis unfolding clean_html_content_unfold .
qed

lemma second_pass_shortens:
  assumes "length (unescape (clean_html_content unescape x)) < length (clean_html_content unescape x)"
  shows "clean_html_content unescape (clean_html_content unescape x) \<noteq> clean_html_content unescape x"
proof
  assume "clean_html_content unescape (clean_html_content unescape x) = clean_html_content unescape x"
  then have "length (clean_html_content unescape x) \<le> length (unescape (clean_html_content unescape x))"
    using length_clean [of unescape "clean_html_content unescape x"] by simp
  with assms show False by simp
qed

text \<open>
  C4, as stated: for every input \<open>x\<close>, \<open>clean_html_content(clean_html_content(x))\<close> equals
  \<open>clean_html_content(x)\<close>. It does not at \<open>&amp;lt;\<close>: every pass decodes the entities
  once more, so the first pass gives \<open>&lt;\<close> and the second gives \<open><\<close>.
\<close>

theorem normalizer_decodes_twice:
  "clean_html_content html_unescape ''&amp;lt;'' = ''&lt;''
   \<and> clean_html_content html_unescape (clean_html_content html_unescape ''&amp;lt;'') = ''<''
   \<and> clean_html_content html_unescape (clean_html_content html_unescape ''&amp;lt;'')
       \<noteq> clean_html_content html_unescape ''&amp;lt;''"
proof -
  have a: "clean_html_content html_unescape ''&amp;lt;'' = ''&lt;''" by code_simp
  have b: "clean_html_content html_unescape ''&lt;'' = ''<''" by code_simp
  show ?thesis unfolding a b by simp
qed

text \<open>
  C4, amended: for every input \<open>x\<close> whose normalized text the entity decoder leaves
  unchanged, \<open>clean_html_content(clean_html_content(x))\<close> equals \<open>clean_html_content(x)\<close>.
\<close>

theorem normalizer_idempotent_on_decoded:
  assumes "unescape (clean_html_content unescape x) = clean_html_content unescape x"
  shows "clean_html_content unescape (clean_html_content unescape x) = clean_html_content unescape x"
proof (rule clean_fixed [of unescape "clean_html_content unescape x", OF assms clean_has_no_tag clean_blank_ok])
  show "strip (clean_html_content unescape x) = clean_html_content unescape x"
    unfolding clean_html_content_unfold by (rule strip_strip)
qed

theorem normalizer_idempotent_on_decoded_witness:
  "clean_html_content html_unescape ''&lt;P&gt;A<BR/> <br>(a) <B>b</b>'' = ''A'' @ [LF, LF] @ ''(a) b''
   \<and> html_unescape (clean_html_content html_unescape ''&lt;P&gt;A<BR/> <br>(a) <B>b</b>'')
       = clean_html_content html_unescape ''&lt;P&gt;A<BR/> <br>(a) <B>b</b>''
   \<and> clean_html_content html_unescape
         (clean_html_content html_unescape ''&lt;P&gt;A<BR/> <br>(a) <B>b</b>'')
       = clean_html_content html_unescape ''&lt;P&gt;A<BR/> <br>(a) <B>b</b>''"
proof -
  let ?x = "''&lt;P&gt;A<BR/> <br>(a) <B>b</b>''"
  have c: "clean_html_content html_unescape ?x = ''A'' @ [LF, LF] @ ''(a) b''" by code_simp
  have u: "html_unescape (''A'' @ [LF, LF] @ ''(a) b'') = ''A'' @ [LF, LF] @ ''(a) b''" by code_simp
  from u have h: "html_unescape (clean_html_content html_unescape ?x) = clean_html_content html_unescape ?x"
    unfolding c .
  from c h normalizer_idempotent_on_decoded [of html_unescape ?x, OF h] show ?thesis
    by (intro conjI)
qed

end
